theory Spec2Isabelle
  imports Main
begin

section \<open>The task group of package gtask\<close>

text \<open>
  The Go type \<^verbatim>\<open>Group\<close> with its methods \<^verbatim>\<open>Go\<close>, \<^verbatim>\<open>Wait\<close>, \<^verbatim>\<open>runTask\<close>, \<^verbatim>\<open>joinErrors\<close> and the
  small mutex-protected accessors. The shared fields form a record; every operation that the
  source performs under \<^verbatim>\<open>g.mu\<close>, on the \<^verbatim>\<open>sync.WaitGroup\<close>, on the \<^verbatim>\<open>sync.Once\<close> or on the
  channel is one atomic function on that record, and goroutines are threads of an interleaving
  step function further below.

  An \<^verbatim>\<open>error\<close> value is represented by the text its \<^verbatim>\<open>Error()\<close> method returns, the \<^verbatim>\<open>nil\<close>
  error by \<open>None\<close>. The buffered channel of \<^verbatim>\<open>struct{}\<close> carries no data, so it is its capacity
  and the number of buffered elements; a \<^verbatim>\<open>nil\<close> channel is \<open>None\<close>. The slice \<^verbatim>\<open>errors\<close> is
  \<open>None\<close> while it is the \<^verbatim>\<open>nil\<close> slice. The counters are Go \<^verbatim>\<open>int\<close>s (64 bit); they count
  goroutines that were started, so they stay far below \<open>2^63\<close> and are modelled by \<open>int\<close>.
\<close>

type_synonym error = string

datatype chan = Chan (cap: nat) (buffered: nat)

record Group =
  Concurrent :: int
  AllowSomeFail :: bool
  wg :: int
  semaphore :: "chan option"
  errors :: "error list option"
  successCount :: int
  totalTasks :: int
  once :: bool

text \<open>The zero value of the unexported fields, with the two exported options chosen by the caller.\<close>

definition new_Group :: "int \<Rightarrow> bool \<Rightarrow> Group" where
  "new_Group c a =
     \<lparr>Concurrent = c, AllowSomeFail = a, wg = 0, semaphore = None, errors = None,
      successCount = 0, totalTasks = 0, once = False\<rparr>"

text \<open>A slice read: the \<^verbatim>\<open>nil\<close> slice has length 0 and ranges over nothing.\<close>

definition elems :: "error list option \<Rightarrow> error list" where
  "elems es = (case es of None \<Rightarrow> [] | Some xs \<Rightarrow> xs)"

text \<open>\<^verbatim>\<open>append(g.errors, err)\<close>: appending to the \<^verbatim>\<open>nil\<close> slice allocates.\<close>

definition addError :: "error \<Rightarrow> Group \<Rightarrow> Group" where
  "addError err g = g\<lparr>errors := Some (elems (errors g) @ [err])\<rparr>"

definition addTotalTasks :: "Group \<Rightarrow> Group" where
  "addTotalTasks g = g\<lparr>totalTasks := totalTasks g + 1\<rparr>"

definition getHasFailed :: "Group \<Rightarrow> bool" where
  "getHasFailed g = (length (elems (errors g)) > 0)"

definition addSuccessCount :: "Group \<Rightarrow> Group" where
  "addSuccessCount g = g\<lparr>successCount := successCount g + 1\<rparr>"

definition getStats :: "Group \<Rightarrow> int \<times> int \<times> error list option" where
  "getStats g = (successCount g, totalTasks g, errors g)"

text \<open>
  The loop of \<^verbatim>\<open>joinErrors\<close>: the separator is added when the text built so far is not empty.
\<close>

fun joinLoop :: "string \<Rightarrow> error list \<Rightarrow> string" where
  "joinLoop errMsg [] = errMsg"
| "joinLoop errMsg (err # rest) =
     joinLoop ((if errMsg \<noteq> [] then errMsg @ ''; '' else errMsg) @ err) rest"

definition joinErrors :: "Group \<Rightarrow> error option" where
  "joinErrors g =
     (if length (elems (errors g)) = 0 then None
      else Some (joinLoop [] (elems (errors g))))"

text \<open>
  \<^verbatim>\<open>g.once.Do(...)\<close> of \<^verbatim>\<open>Go\<close>: the function runs when the \<^verbatim>\<open>Once\<close> has not fired yet.
\<close>

definition once_Do :: "Group \<Rightarrow> Group" where
  "once_Do g =
     (if once g then g
      else g\<lparr>once := True,
             errors := Some [],
             semaphore := (if Concurrent g > 0 then Some (Chan (nat (Concurrent g)) 0)
                           else semaphore g)\<rparr>)"

text \<open>
  The part of \<^verbatim>\<open>Wait\<close> after \<^verbatim>\<open>g.wg.Wait()\<close>. Both branches on \<^verbatim>\<open>AllowSomeFail\<close> are kept as
  the source writes them.
\<close>

definition Wait_result :: "Group \<Rightarrow> int \<times> error option" where
  "Wait_result g =
     (case getStats g of (successCount', _, errors') \<Rightarrow>
        if length (elems errors') = 0 then (successCount', None)
        else if AllowSomeFail g then (successCount', joinErrors g)
        else (successCount', joinErrors g))"

text \<open>
  \<^verbatim>\<open>Wait\<close> called while nothing else runs: \<^verbatim>\<open>g.wg.Wait()\<close> returns when the counter is zero and
  blocks otherwise (\<open>None\<close>: the call does not return).
\<close>

definition Wait :: "Group \<Rightarrow> (int \<times> error option) option" where
  "Wait g = (if wg g = 0 then Some (Wait_result g) else None)"

section \<open>Goroutines\<close>

text \<open>
  How a call of \<^verbatim>\<open>task()\<close> ends, as far as \<^verbatim>\<open>runTask\<close> can tell: it returns \<^verbatim>\<open>nil\<close>, it returns an
  error, it panics, or it ends its goroutine with \<^verbatim>\<open>runtime.Goexit\<close>, which runs the deferred
  calls while \<^verbatim>\<open>recover()\<close> returns \<^verbatim>\<open>nil\<close>. \<open>Panic p\<close> carries the text that \<^verbatim>\<open>%v\<close> prints for the
  recovered value; the module imports \<^verbatim>\<open>log/slog\<close>, so it is built with Go 1.21 or later, where
  \<^verbatim>\<open>recover()\<close> is never \<^verbatim>\<open>nil\<close> after a panic.

  Before it ends, a task may itself use the Group it was submitted to: a task is the list of the
  calls of \<^verbatim>\<open>Go\<close> and \<^verbatim>\<open>Wait\<close> that it makes, in their order, and the way it ends after them.
  \<open>Hang\<close> in that list is a point where the goroutine never goes on, as at \<^verbatim>\<open>select {}\<close> or in a
  loop that never ends: a task with it never returns.
\<close>

datatype outcome = Ok | Err error | Panic string | Goexit

datatype task = Task (calls: "call list") (ending: outcome)
  and call = CallGo task | CallWait | Hang

text \<open>
  The body of \<^verbatim>\<open>runTask\<close> after \<^verbatim>\<open>task()\<close> and up to its deferred \<^verbatim>\<open>wg.Done()\<close>:
  \<^verbatim>\<open>addSuccessCount\<close> after a \<^verbatim>\<open>nil\<close> result, \<^verbatim>\<open>addError(err)\<close> after an error, the deferred
  \<^verbatim>\<open>recover\<close> with \<^verbatim>\<open>addError(fmt.Errorf("task panic: %v", r))\<close> after a panic, and nothing after
  \<^verbatim>\<open>runtime.Goexit\<close>, where the statements after \<^verbatim>\<open>task()\<close> are skipped and \<^verbatim>\<open>r\<close> is \<^verbatim>\<open>nil\<close>.
\<close>

fun report :: "outcome \<Rightarrow> Group \<Rightarrow> Group" where
  "report Ok g = addSuccessCount g"
| "report (Err err) g = addError err g"
| "report (Panic r) g = addError (''task panic: '' @ r) g"
| "report Goexit g = g"

text \<open>
  Channel operations on \<^verbatim>\<open>g.semaphore\<close>; \<open>None\<close> is a goroutine that cannot proceed: a send on
  a full channel, a receive on an empty one, and either of them on the \<^verbatim>\<open>nil\<close> channel.
\<close>

fun send :: "chan option \<Rightarrow> chan option option" where
  "send None = None"
| "send (Some (Chan c n)) = (if n < c then Some (Some (Chan c (Suc n))) else None)"

fun recv :: "chan option \<Rightarrow> chan option option" where
  "recv None = None"
| "recv (Some (Chan c n)) = (if 0 < n then Some (Some (Chan c (n - 1))) else None)"

text \<open>
  The places where a goroutine that uses the Group can be between two atomic operations. It
  executes a list of calls of \<^verbatim>\<open>Go\<close> and \<^verbatim>\<open>Wait\<close>; inside \<^verbatim>\<open>Go\<close> it is before the admission check,
  before \<^verbatim>\<open>addTotalTasks\<close>, before \<^verbatim>\<open>wg.Add(1)\<close>, before the test of \<^verbatim>\<open>Concurrent\<close>, before the send on
  the semaphore or before the \<^verbatim>\<open>go\<close> statement of the bounded branch; inside \<^verbatim>\<open>Wait\<close> it is before
  \<^verbatim>\<open>getStats\<close> or before \<^verbatim>\<open>joinErrors\<close>. \<open>Idle\<close> is between two calls.
\<close>

datatype pc =
    Idle
  | GoCheck task
  | GoAddTotal task
  | GoWgAdd task
  | GoLaunch task
  | GoSend task
  | GoSpawn task
  | WaitStats
  | WaitJoin int

text \<open>
  A goroutine started by \<^verbatim>\<open>Go\<close>. While \<^verbatim>\<open>task()\<close> executes, it has a place, a list of calls
  still to make and the results of its calls of \<^verbatim>\<open>Wait\<close>, as a caller has, and the way the task
  will end. The flag tells the bounded branch, whose closure defers the receive from the
  semaphore, from the unbounded one. \<open>Crashed\<close> is the panic of \<^verbatim>\<open>wg.Done()\<close> on a counter that
  would become negative.
\<close>

datatype wpc =
    RunTask pc "call list" "(int \<times> error option) list" outcome bool
  | Report outcome bool
  | WgDone bool
  | Release
  | Exited
  | Crashed

datatype thread =
    Caller pc "call list" "(int \<times> error option) list"
  | Worker wpc

record system =
  grp :: Group
  threads :: "thread list"

text \<open>The goroutine that a \<^verbatim>\<open>go\<close> statement of \<^verbatim>\<open>Go\<close> starts for a task.\<close>

definition started :: "task \<Rightarrow> bool \<Rightarrow> thread" where
  "started t b = Worker (RunTask Idle (calls t) [] (ending t) b)"

text \<open>
  One atomic step of a goroutine that uses the Group: the new Group, the place, the calls left
  and the results afterwards, and the goroutines it started. \<open>None\<close> when it has no call left
  or is blocked.
\<close>

fun caller_step ::
  "pc \<Rightarrow> call list \<Rightarrow> (int \<times> error option) list \<Rightarrow> Group \<Rightarrow>
     (Group \<times> (pc \<times> call list \<times> (int \<times> error option) list) \<times> thread list) option"
where
  "caller_step Idle [] rs g = None"
| "caller_step Idle (CallGo task # cs) rs g = Some (once_Do g, (GoCheck task, cs, rs), [])"
| "caller_step Idle (CallWait # cs) rs g =
     (if wg g = 0 then Some (g, (WaitStats, cs, rs), []) else None)"
| "caller_step Idle (Hang # cs) rs g = None"
| "caller_step (GoCheck task) cs rs g =
     (if \<not> AllowSomeFail g \<and> getHasFailed g then Some (g, (Idle, cs, rs), [])
      else Some (g, (GoAddTotal task, cs, rs), []))"
| "caller_step (GoAddTotal task) cs rs g = Some (addTotalTasks g, (GoWgAdd task, cs, rs), [])"
| "caller_step (GoWgAdd task) cs rs g = Some (g\<lparr>wg := wg g + 1\<rparr>, (GoLaunch task, cs, rs), [])"
| "caller_step (GoLaunch task) cs rs g =
     (if Concurrent g = 0 then Some (g, (Idle, cs, rs), [started task False])
      else Some (g, (GoSend task, cs, rs), []))"
| "caller_step (GoSend task) cs rs g =
     (case send (semaphore g) of
        None \<Rightarrow> None
      | Some ch \<Rightarrow> Some (g\<lparr>semaphore := ch\<rparr>, (GoSpawn task, cs, rs), []))"
| "caller_step (GoSpawn task) cs rs g = Some (g, (Idle, cs, rs), [started task True])"
| "caller_step WaitStats cs rs g =
     (case getStats g of (successCount', _, errors') \<Rightarrow>
        if length (elems errors') = 0 then Some (g, (Idle, cs, rs @ [(successCount', None)]), [])
        else Some (g, (WaitJoin successCount', cs, rs), []))"
| "caller_step (WaitJoin successCount') cs rs g =
     Some (g, (Idle, cs, rs @ [(successCount', joinErrors g)]), [])"

text \<open>
  One atomic step of a goroutine started by \<^verbatim>\<open>Go\<close>: inside \<^verbatim>\<open>task()\<close> it makes the calls of the
  task as a caller does, and when none is left the task ends and \<^verbatim>\<open>runTask\<close> goes on.
\<close>

fun worker_step :: "wpc \<Rightarrow> Group \<Rightarrow> (Group \<times> thread \<times> thread list) option" where
  "worker_step (RunTask p cs rs oc b) g =
     (if p = Idle \<and> cs = [] then Some (g, Worker (Report oc b), [])
      else (case caller_step p cs rs g of
              None \<Rightarrow> None
            | Some (g', (p', cs', rs'), new) \<Rightarrow> Some (g', Worker (RunTask p' cs' rs' oc b), new)))"
| "worker_step (Report oc b) g = Some (report oc g, Worker (WgDone b), [])"
| "worker_step (WgDone b) g =
     (if wg g - 1 < 0 then Some (g, Worker Crashed, [])
      else Some (g\<lparr>wg := wg g - 1\<rparr>, Worker (if b then Release else Exited), []))"
| "worker_step Release g =
     (case recv (semaphore g) of
        None \<Rightarrow> None
      | Some ch \<Rightarrow> Some (g\<lparr>semaphore := ch\<rparr>, Worker Exited, []))"
| "worker_step Exited g = None"
| "worker_step Crashed g = None"

fun thread_step :: "thread \<Rightarrow> Group \<Rightarrow> (Group \<times> thread \<times> thread list) option" where
  "thread_step (Caller p cs rs) g =
     (case caller_step p cs rs g of
        None \<Rightarrow> None
      | Some (g', (p', cs', rs'), new) \<Rightarrow> Some (g', Caller p' cs' rs', new))"
| "thread_step (Worker w) g = worker_step w g"

text \<open>The scheduler lets goroutine \<open>i\<close> take its next step.\<close>

definition step :: "nat \<Rightarrow> system \<Rightarrow> system option" where
  "step i s =
     (if i < length (threads s) then
        (case thread_step (threads s ! i) (grp s) of
           None \<Rightarrow> None
         | Some (g', t', new) \<Rightarrow> Some \<lparr>grp = g', threads = (threads s)[i := t'] @ new\<rparr>)
      else None)"

text \<open>A schedule is the list of goroutines chosen, one per step.\<close>

fun run :: "nat list \<Rightarrow> system \<Rightarrow> system option" where
  "run [] s = Some s"
| "run (i # sched) s = (case step i s of None \<Rightarrow> None | Some s' \<Rightarrow> run sched s')"

inductive steps :: "system \<Rightarrow> system \<Rightarrow> bool" where
  start: "steps s s"
| later: "steps s s' \<Longrightarrow> step i s' = Some s'' \<Longrightarrow> steps s s''"

text \<open>
  A fresh Group with its options and any number of callers, each with the calls it will make.
\<close>

definition init :: "int \<Rightarrow> bool \<Rightarrow> call list list \<Rightarrow> system" where
  "init c a scripts = \<lparr>grp = new_Group c a, threads = map (\<lambda>cs. Caller Idle cs []) scripts\<rparr>"

section \<open>Counting goroutines\<close>

text \<open>
  The sum of a weight over all goroutines, and three weights. Inside a call of \<^verbatim>\<open>Go\<close>: the unit
  being submitted is counted in \<^verbatim>\<open>totalTasks\<close>; \<^verbatim>\<open>wg.Add(1)\<close> has run for it; its element sits in
  the semaphore channel. A goroutine started by \<^verbatim>\<open>Go\<close> adds to that its own unit: counted and not
  reported yet; before its \<^verbatim>\<open>wg.Done()\<close>; before its receive from the semaphore.
\<close>

definition total :: "(thread \<Rightarrow> int) \<Rightarrow> thread list \<Rightarrow> int" where
  "total f ts = sum_list (map f ts)"

fun counted :: "pc \<Rightarrow> int" where
  "counted (GoWgAdd _) = 1"
| "counted (GoLaunch _) = 1"
| "counted (GoSend _) = 1"
| "counted (GoSpawn _) = 1"
| "counted _ = 0"

fun added :: "pc \<Rightarrow> int" where
  "added (GoLaunch _) = 1"
| "added (GoSend _) = 1"
| "added (GoSpawn _) = 1"
| "added _ = 0"

fun sent :: "pc \<Rightarrow> int" where
  "sent (GoSpawn _) = 1"
| "sent _ = 0"

fun in_flight :: "thread \<Rightarrow> int" where
  "in_flight (Caller p _ _) = counted p"
| "in_flight (Worker (RunTask p _ _ _ _)) = 1 + counted p"
| "in_flight (Worker (Report _ _)) = 1"
| "in_flight _ = 0"

fun pending :: "thread \<Rightarrow> int" where
  "pending (Caller p _ _) = added p"
| "pending (Worker (RunTask p _ _ _ _)) = 1 + added p"
| "pending (Worker (Report _ _)) = 1"
| "pending (Worker (WgDone _)) = 1"
| "pending _ = 0"

fun holds_token :: "thread \<Rightarrow> int" where
  "holds_token (Caller p _ _) = sent p"
| "holds_token (Worker (RunTask p _ _ _ b)) = (if b then 1 else 0) + sent p"
| "holds_token (Worker (Report _ b)) = (if b then 1 else 0)"
| "holds_token (Worker (WgDone b)) = (if b then 1 else 0)"
| "holds_token (Worker Release) = 1"
| "holds_token _ = 0"

text \<open>
  What the position of a goroutine says about the Group: \<^verbatim>\<open>once.Do\<close> has run for everyone inside
  \<^verbatim>\<open>Go\<close> or started by it, the bounded branch is taken exactly when \<^verbatim>\<open>Concurrent\<close> is not 0, and
  \<^verbatim>\<open>wg.Done()\<close> has not panicked.
\<close>

fun place_ok :: "Group \<Rightarrow> pc \<Rightarrow> bool" where
  "place_ok g Idle = True"
| "place_ok g WaitStats = True"
| "place_ok g (WaitJoin _) = True"
| "place_ok g (GoSend _) = (once g \<and> Concurrent g \<noteq> 0)"
| "place_ok g (GoSpawn _) = (once g \<and> Concurrent g \<noteq> 0)"
| "place_ok g _ = once g"

fun gate_ok :: "Group \<Rightarrow> thread \<Rightarrow> bool" where
  "gate_ok g (Caller p _ _) = place_ok g p"
| "gate_ok g (Worker (RunTask p _ _ _ b)) =
     (once g \<and> (b \<longleftrightarrow> Concurrent g \<noteq> 0) \<and> place_ok g p)"
| "gate_ok g (Worker (Report _ b)) = (once g \<and> (b \<longleftrightarrow> Concurrent g \<noteq> 0))"
| "gate_ok g (Worker (WgDone b)) = (once g \<and> (b \<longleftrightarrow> Concurrent g \<noteq> 0))"
| "gate_ok g (Worker Release) = (once g \<and> Concurrent g \<noteq> 0)"
| "gate_ok g (Worker Exited) = once g"
| "gate_ok g (Worker Crashed) = False"

text \<open>The channel, when it exists, has capacity \<^verbatim>\<open>Concurrent\<close> and buffers one element per holder.\<close>

definition gate_inv :: "Group \<Rightarrow> thread list \<Rightarrow> bool" where
  "gate_inv g ts =
     (case semaphore g of
        None \<Rightarrow> total holds_token ts = 0 \<and> \<not> (once g \<and> Concurrent g > 0)
      | Some ch \<Rightarrow> once g \<and> Concurrent g > 0 \<and> cap ch = nat (Concurrent g) \<and>
          int (buffered ch) = total holds_token ts \<and> buffered ch \<le> cap ch)"

text \<open>
  The admitted units that are counted nowhere: in \<^verbatim>\<open>totalTasks\<close>, but neither a success nor a
  recorded failure nor still to report.
\<close>

definition uncounted :: "system \<Rightarrow> int" where
  "uncounted s =
     totalTasks (grp s) - successCount (grp s) - int (length (elems (errors (grp s))))
       - total in_flight (threads s)"

definition invariant :: "system \<Rightarrow> bool" where
  "invariant s =
     (0 \<le> uncounted s \<and>
      wg (grp s) = total pending (threads s) \<and>
      gate_inv (grp s) (threads s) \<and>
      (\<not> once (grp s) \<longrightarrow> errors (grp s) = None) \<and>
      list_all (gate_ok (grp s)) (threads s))"

text \<open>
  Every task returns or panics, after finitely many steps: none ends with \<^verbatim>\<open>runtime.Goexit\<close> and
  none hangs; the task itself, and the tasks that it submits.
\<close>

fun returns :: "task \<Rightarrow> bool" and call_returns :: "call \<Rightarrow> bool" where
  "returns (Task cs oc) = (oc \<noteq> Goexit \<and> list_all call_returns cs)"
| "call_returns (CallGo t) = returns t"
| "call_returns CallWait = True"
| "call_returns Hang = False"

fun place_returns :: "pc \<Rightarrow> bool" where
  "place_returns (GoCheck t) = returns t"
| "place_returns (GoAddTotal t) = returns t"
| "place_returns (GoWgAdd t) = returns t"
| "place_returns (GoLaunch t) = returns t"
| "place_returns (GoSend t) = returns t"
| "place_returns (GoSpawn t) = returns t"
| "place_returns _ = True"

fun thread_returns :: "thread \<Rightarrow> bool" where
  "thread_returns (Caller p cs _) = (place_returns p \<and> list_all call_returns cs)"
| "thread_returns (Worker (RunTask p cs _ oc _)) =
     (place_returns p \<and> list_all call_returns cs \<and> oc \<noteq> Goexit)"
| "thread_returns (Worker (Report oc _)) = (oc \<noteq> Goexit)"
| "thread_returns _ = True"

text \<open>
  No task uses the Group or hangs: every unit submitted ends without a call of \<^verbatim>\<open>Go\<close> or
  \<^verbatim>\<open>Wait\<close>, and no caller hangs between its calls.
\<close>

fun call_plain :: "call \<Rightarrow> bool" where
  "call_plain (CallGo t) = (calls t = [])"
| "call_plain CallWait = True"
| "call_plain Hang = False"

fun place_plain :: "pc \<Rightarrow> bool" where
  "place_plain (GoCheck t) = (calls t = [])"
| "place_plain (GoAddTotal t) = (calls t = [])"
| "place_plain (GoWgAdd t) = (calls t = [])"
| "place_plain (GoLaunch t) = (calls t = [])"
| "place_plain (GoSend t) = (calls t = [])"
| "place_plain (GoSpawn t) = (calls t = [])"
| "place_plain _ = True"

fun thread_plain :: "thread \<Rightarrow> bool" where
  "thread_plain (Caller p cs _) = (place_plain p \<and> list_all call_plain cs)"
| "thread_plain (Worker (RunTask p cs _ _ _)) = (p = Idle \<and> cs = [])"
| "thread_plain _ = True"

text \<open>A unit that is dropped from the count by the next step of its goroutine.\<close>

fun loses :: "thread \<Rightarrow> int" where
  "loses (Worker (Report Goexit _)) = 1"
| "loses _ = 0"

text \<open>A caller is inside a call of \<^verbatim>\<open>Go\<close> or \<^verbatim>\<open>Wait\<close>.\<close>

fun in_call :: "thread \<Rightarrow> bool" where
  "in_call (Caller Idle _ _) = False"
| "in_call (Caller _ _ _) = True"
| "in_call (Worker _) = False"

section \<open>Termination\<close>

text \<open>
  A goroutine has finished when a caller has returned from its last call or a started goroutine
  has run to its end. The weight of a goroutine bounds the number of steps that it and the
  goroutines it will start can still take: for a call of \<^verbatim>\<open>Go\<close> seven steps of the caller, four
  of the unit around its task and the steps of the calls that the task makes; three for a call
  of \<^verbatim>\<open>Wait\<close>. Where a goroutine hangs it takes no step at all.
\<close>

fun finished :: "thread \<Rightarrow> bool" where
  "finished (Caller Idle [] _) = True"
| "finished (Worker Exited) = True"
| "finished _ = False"

fun task_weight :: "task \<Rightarrow> nat" and call_weight :: "call \<Rightarrow> nat" where
  "task_weight (Task cs oc) = sum_list (map call_weight cs)"
| "call_weight (CallGo t) = 11 + task_weight t"
| "call_weight CallWait = 3"
| "call_weight Hang = 1"

fun pc_weight :: "pc \<Rightarrow> nat" where
  "pc_weight Idle = 0"
| "pc_weight (GoCheck t) = 10 + task_weight t"
| "pc_weight (GoAddTotal t) = 9 + task_weight t"
| "pc_weight (GoWgAdd t) = 8 + task_weight t"
| "pc_weight (GoLaunch t) = 7 + task_weight t"
| "pc_weight (GoSend t) = 6 + task_weight t"
| "pc_weight (GoSpawn t) = 5 + task_weight t"
| "pc_weight WaitStats = 2"
| "pc_weight (WaitJoin _) = 1"

fun worker_weight :: "wpc \<Rightarrow> nat" where
  "worker_weight (RunTask p cs _ _ _) = 4 + pc_weight p + sum_list (map call_weight cs)"
| "worker_weight (Report _ _) = 3"
| "worker_weight (WgDone _) = 2"
| "worker_weight Release = 1"
| "worker_weight Exited = 0"
| "worker_weight Crashed = 0"

fun weight :: "thread \<Rightarrow> nat" where
  "weight (Caller p cs _) = pc_weight p + sum_list (map call_weight cs)"
| "weight (Worker w) = worker_weight w"

definition steps_left :: "system \<Rightarrow> nat" where
  "steps_left s = sum_list (map weight (threads s))"

text \<open>
  A unit runs while its \<^verbatim>\<open>task()\<close> executes; its goroutine is alive until the last deferred call
  has returned.
\<close>

fun running :: "thread \<Rightarrow> bool" where
  "running (Worker (RunTask _ _ _ _ _)) = True"
| "running _ = False"

fun alive :: "thread \<Rightarrow> bool" where
  "alive (Worker (RunTask _ _ _ _ _)) = True"
| "alive (Worker (Report _ _)) = True"
| "alive (Worker (WgDone _)) = True"
| "alive (Worker Release) = True"
| "alive _ = False"

text \<open>
  A goroutine inside \<^verbatim>\<open>Go\<close> that has passed the admission check and has not sent on the
  semaphore yet.
\<close>

fun admitted :: "pc \<Rightarrow> bool" where
  "admitted (GoAddTotal _) = True"
| "admitted (GoWgAdd _) = True"
| "admitted (GoLaunch _) = True"
| "admitted (GoSend _) = True"
| "admitted _ = False"

text \<open>
  The schedule that lets the goroutine of a unit whose task is about to end run to its end
  without a step of anyone else: the end of \<^verbatim>\<open>task()\<close>, the report, \<^verbatim>\<open>wg.Done()\<close> and, in the
  bounded branch, the receive.
\<close>

definition unit_schedule :: "nat \<Rightarrow> bool \<Rightarrow> nat list" where
  "unit_schedule i b = (if b then [i, i, i, i] else [i, i, i])"





section \<open>Concrete executions\<close>

text \<open>A task that makes no call on the Group and ends in the given way.\<close>

definition unit :: "outcome \<Rightarrow> task" where
  "unit oc = Task [] oc"

text \<open>
  One caller submits a unit that succeeds, one that returns the error \<^verbatim>\<open>E1\<close> and one that panics
  with \<^verbatim>\<open>P1\<close>, without a concurrency bound, and waits. In the execution below the panicking unit
  reports first.
\<close>

definition mixed_units :: system where
  "mixed_units =
     init 0 True [[CallGo (unit Ok), CallGo (unit (Err ''E1'')), CallGo (unit (Panic ''P1'')),
                   CallWait]]"

definition mixed_units_done :: system where
  "mixed_units_done =
     \<lparr>grp = \<lparr>Concurrent = 0, AllowSomeFail = True, wg = 0, semaphore = None,
              errors = Some [''task panic: P1'', ''E1''], successCount = 1, totalTasks = 3,
              once = True\<rparr>,
      threads = [Caller Idle [] [(1, Some ''task panic: P1; E1'')],
                 Worker Exited, Worker Exited, Worker Exited]\<rparr>"

text \<open>
  One caller submits a unit that ends with \<^verbatim>\<open>runtime.Goexit()\<close>, and waits.
\<close>

definition goexit_unit :: system where
  "goexit_unit = init 0 True [[CallGo (unit Goexit), CallWait]]"

definition goexit_unit_done :: system where
  "goexit_unit_done =
     \<lparr>grp = \<lparr>Concurrent = 0, AllowSomeFail = True, wg = 0, semaphore = None,
              errors = Some [], successCount = 0, totalTasks = 1, once = True\<rparr>,
      threads = [Caller Idle [] [(0, None)], Worker Exited]\<rparr>"



text \<open>
  With \<^verbatim>\<open>Concurrent = 2\<close> one caller submits three units and waits. After two units are started the
  third submission is blocked on the semaphore; later all three have reported.
\<close>

definition three_bounded :: system where
  "three_bounded = init 2 False [[CallGo (unit Ok), CallGo (unit Ok), CallGo (unit Ok), CallWait]]"

definition three_bounded_full :: system where
  "three_bounded_full =
     \<lparr>grp = \<lparr>Concurrent = 2, AllowSomeFail = False, wg = 3, semaphore = Some (Chan 2 2),
              errors = Some [], successCount = 0, totalTasks = 3, once = True\<rparr>,
      threads = [Caller (GoSend (unit Ok)) [CallWait] [], Worker (RunTask Idle [] [] Ok True),
                 Worker (RunTask Idle [] [] Ok True)]\<rparr>"

definition three_bounded_done :: system where
  "three_bounded_done =
     \<lparr>grp = \<lparr>Concurrent = 2, AllowSomeFail = False, wg = 0, semaphore = Some (Chan 2 0),
              errors = Some [], successCount = 3, totalTasks = 3, once = True\<rparr>,
      threads = [Caller Idle [] [(3, None)], Worker Exited, Worker Exited, Worker Exited]\<rparr>"

text \<open>
  With \<^verbatim>\<open>Concurrent = 1\<close> one caller submits a unit whose task submits another unit to the same
  Group, and waits. The task holds the only element of the semaphore while its own call of \<^verbatim>\<open>Go\<close>
  is at the send.
\<close>

definition nested_bounded :: system where
  "nested_bounded = init 1 False [[CallGo (Task [CallGo (unit Ok)] Ok), CallWait]]"

definition nested_bounded_stuck :: system where
  "nested_bounded_stuck =
     \<lparr>grp = \<lparr>Concurrent = 1, AllowSomeFail = False, wg = 2, semaphore = Some (Chan 1 1),
              errors = Some [], successCount = 0, totalTasks = 2, once = True\<rparr>,
      threads = [Caller Idle [CallWait] [],
                 Worker (RunTask (GoSend (unit Ok)) [] [] Ok True)]\<rparr>"

text \<open>
  With \<^verbatim>\<open>Concurrent = -1\<close> one caller submits a unit: after the admission check, and at the send.
\<close>

definition negative_bound :: system where
  "negative_bound = init (- 1) False [[CallGo (unit Ok), CallWait]]"

definition negative_bound_admitted :: system where
  "negative_bound_admitted =
     \<lparr>grp = \<lparr>Concurrent = - 1, AllowSomeFail = False, wg = 0, semaphore = None,
              errors = Some [], successCount = 0, totalTasks = 0, once = True\<rparr>,
      threads = [Caller (GoAddTotal (unit Ok)) [CallWait] []]\<rparr>"

definition negative_bound_stuck :: system where
  "negative_bound_stuck =
     \<lparr>grp = \<lparr>Concurrent = - 1, AllowSomeFail = False, wg = 1, semaphore = None,
              errors = Some [], successCount = 0, totalTasks = 1, once = True\<rparr>,
      threads = [Caller (GoSend (unit Ok)) [CallWait] []]\<rparr>"

text \<open>
  With \<^verbatim>\<open>Concurrent = 2\<close> one caller submits a unit that panics with \<^verbatim>\<open>P1\<close>: the state after
  \<^verbatim>\<open>Go\<close> has returned, and the state after the goroutine of the unit has ended.
\<close>

definition panic_bounded :: system where
  "panic_bounded = init 2 False [[CallGo (unit (Panic ''P1'')), CallWait]]"

definition panic_bounded_started :: system where
  "panic_bounded_started =
     \<lparr>grp = \<lparr>Concurrent = 2, AllowSomeFail = False, wg = 1, semaphore = Some (Chan 2 1),
              errors = Some [], successCount = 0, totalTasks = 1, once = True\<rparr>,
      threads = [Caller Idle [CallWait] [], Worker (RunTask Idle [] [] (Panic ''P1'') True)]\<rparr>"

definition panic_bounded_ended :: system where
  "panic_bounded_ended =
     \<lparr>grp = \<lparr>Concurrent = 2, AllowSomeFail = False, wg = 0, semaphore = Some (Chan 2 0),
              errors = Some [''task panic: P1''], successCount = 0, totalTasks = 1, once = True\<rparr>,
      threads = [Caller Idle [CallWait] [], Worker Exited]\<rparr>"

text \<open>
  With \<^verbatim>\<open>Concurrent = 1\<close> and \<^verbatim>\<open>AllowSomeFail = false\<close> one caller submits a unit that succeeds and,
  after it has ended, a unit that fails; after that one has ended it submits a third unit.
\<close>

definition fail_fast :: system where
  "fail_fast =
     init 1 False [[CallGo (unit Ok), CallGo (unit (Err ''failed'')), CallGo (unit Ok), CallWait]]"

definition fail_fast_failed :: system where
  "fail_fast_failed =
     \<lparr>grp = \<lparr>Concurrent = 1, AllowSomeFail = False, wg = 0, semaphore = Some (Chan 1 0),
              errors = Some [''failed''], successCount = 1, totalTasks = 2, once = True\<rparr>,
      threads = [Caller Idle [CallGo (unit Ok), CallWait] [], Worker Exited, Worker Exited]\<rparr>"

definition fail_fast_denied :: system where
  "fail_fast_denied =
     \<lparr>grp = \<lparr>Concurrent = 1, AllowSomeFail = False, wg = 0, semaphore = Some (Chan 1 0),
              errors = Some [''failed''], successCount = 1, totalTasks = 2, once = True\<rparr>,
      threads = [Caller Idle [CallWait] [], Worker Exited, Worker Exited]\<rparr>"





section \<open>Properties\<close>

subsection \<open>The invariant of reachable states\<close>


lemma total_update:
  "i < length ts \<Longrightarrow> total f (ts[i := t] @ new) = total f ts - f (ts ! i) + f t + total f new"
proof (induction ts arbitrary: i)
  case Nil then show ?case by simp
next
  case (Cons a ts)
  then show ?case by (cases i) (simp_all add: total_def)
qed

lemma total_simps [simp]: "total f [] = 0" "total f (t # ts) = f t + total f ts"
  by (simp_all add: total_def)

lemma total_member: "(\<And>t. 0 \<le> f t) \<Longrightarrow> i < length ts \<Longrightarrow> f (ts ! i) \<le> total f ts"
proof (induction ts arbitrary: i)
  case Nil then show ?case by simp
next
  case (Cons a ts)
  have nn: "0 \<le> total f ts" using Cons.prems(1) by (induction ts) auto
  show ?case
  proof (cases i)
    case 0 then show ?thesis using nn by simp
  next
    case (Suc j)
    then have "f (ts ! j) \<le> total f ts" using Cons by simp
    then show ?thesis using Suc Cons.prems(1)[of a] by simp
  qed
qed

lemma counted_nonneg: "0 \<le> counted p" by (cases p) simp_all
lemma added_nonneg: "0 \<le> added p" by (cases p) simp_all
lemma sent_nonneg: "0 \<le> sent p" by (cases p) simp_all

lemma pending_nonneg: "0 \<le> pending t"
  using added_nonneg by (cases t rule: pending.cases) (simp_all add: add_nonneg_nonneg)

lemma in_flight_nonneg: "0 \<le> in_flight t"
  using counted_nonneg by (cases t rule: in_flight.cases) (simp_all add: add_nonneg_nonneg)

lemma holds_token_nonneg: "0 \<le> holds_token t"
  using sent_nonneg by (cases t rule: holds_token.cases) (simp_all add: add_nonneg_nonneg)

lemma invariant_init: "invariant (init c a scripts)"
  by (induction scripts)
     (simp_all add: invariant_def uncounted_def init_def new_Group_def elems_def gate_inv_def)

lemmas grp_ops = addError_def addTotalTasks_def addSuccessCount_def once_Do_def getStats_def
  getHasFailed_def elems_def

lemma caller_step_frame:
  "caller_step p cs rs g = Some (g', (p', cs', rs'), new) \<Longrightarrow>
     Concurrent g' = Concurrent g \<and> AllowSomeFail g' = AllowSomeFail g \<and> (once g \<longrightarrow> once g')"
  by (cases "(p, cs, rs, g)" rule: caller_step.cases)
     (auto simp: grp_ops split: if_splits option.splits)

lemma report_frame:
  "wg (report oc g) = wg g \<and> semaphore (report oc g) = semaphore g \<and>
   Concurrent (report oc g) = Concurrent g \<and> AllowSomeFail (report oc g) = AllowSomeFail g \<and>
   totalTasks (report oc g) = totalTasks g \<and> once (report oc g) = once g"
  by (cases oc) (simp_all add: addSuccessCount_def addError_def)

lemma Caller_stepE:
  assumes "thread_step (Caller p cs rs) g = Some (g', t', new)"
  obtains p' cs' rs' where
    "caller_step p cs rs g = Some (g', (p', cs', rs'), new)" and "t' = Caller p' cs' rs'"
  using assms by (auto split: option.splits)

lemma RunTask_stepE:
  assumes "thread_step (Worker (RunTask p cs rs oc b)) g = Some (g', t', new)"
  obtains (ends) "p = Idle" and "cs = []" and "g' = g" and "t' = Worker (Report oc b)" and "new = []"
  | (calls) p' cs' rs' where
      "caller_step p cs rs g = Some (g', (p', cs', rs'), new)" and
      "t' = Worker (RunTask p' cs' rs' oc b)"
  using assms by (auto split: if_splits option.splits)

lemma thread_step_frame:
  assumes "thread_step t g = Some (g', t', new)"
  shows "Concurrent g' = Concurrent g \<and> AllowSomeFail g' = AllowSomeFail g \<and> (once g \<longrightarrow> once g')"
proof (cases t)
  case (Caller p cs rs)
  from assms [unfolded Caller] show ?thesis
  proof (cases rule: Caller_stepE)
    case (1 p' cs' rs')
    from caller_step_frame [OF 1(1)] show ?thesis .
  qed
next
  case (Worker w)
  show ?thesis
  proof (cases w)
    case (RunTask p cs rs oc b)
    from assms [unfolded Worker RunTask] show ?thesis
    proof (cases rule: RunTask_stepE)
      case ends
      then show ?thesis by simp
    next
      case (calls p' cs' rs')
      from caller_step_frame [OF calls(1)] show ?thesis .
    qed
  next
    case (Report oc b)
    with Worker assms show ?thesis by (auto simp: report_frame)
  qed (use Worker assms in \<open>auto split: if_splits option.splits\<close>)
qed

lemma place_ok_mono:
  "place_ok g p \<Longrightarrow> Concurrent g' = Concurrent g \<Longrightarrow> (once g \<longrightarrow> once g') \<Longrightarrow> place_ok g' p"
  by (cases "(g, p)" rule: place_ok.cases) auto

lemma gate_ok_mono:
  "gate_ok g t \<Longrightarrow> Concurrent g' = Concurrent g \<Longrightarrow> (once g \<longrightarrow> once g') \<Longrightarrow> gate_ok g' t"
  by (cases "(g, t)" rule: gate_ok.cases) (auto intro: place_ok_mono)

lemma caller_step_place_ok:
  "caller_step p cs rs g = Some (g', (p', cs', rs'), new) \<Longrightarrow> place_ok g p \<Longrightarrow>
     place_ok g' p' \<and> list_all (gate_ok g') new"
  by (cases "(p, cs, rs, g)" rule: caller_step.cases)
     (auto simp: grp_ops started_def split: if_splits option.splits)

lemma thread_step_gate_ok:
  assumes "thread_step t g = Some (g', t', new)" and "gate_ok g t" and "pending t \<le> wg g"
  shows "gate_ok g' t' \<and> list_all (gate_ok g') new"
proof (cases t)
  case (Caller p cs rs)
  from assms(1) [unfolded Caller] show ?thesis
  proof (cases rule: Caller_stepE)
    case (1 p' cs' rs')
    from caller_step_place_ok [OF 1(1)] assms(2) Caller 1(2) show ?thesis by simp
  qed
next
  case (Worker w)
  show ?thesis
  proof (cases w)
    case (RunTask p cs rs oc b)
    from assms(1) [unfolded Worker RunTask] show ?thesis
    proof (cases rule: RunTask_stepE)
      case ends
      with assms(2) Worker RunTask show ?thesis by simp
    next
      case (calls p' cs' rs')
      from caller_step_place_ok [OF calls(1)] caller_step_frame [OF calls(1)]
        assms(2) Worker RunTask calls(2)
      show ?thesis by simp
    qed
  next
    case (Report oc b)
    with Worker assms show ?thesis by (auto simp: report_frame)
  qed (use Worker assms in \<open>auto split: if_splits option.splits\<close>)
qed

lemma caller_step_counted:
  "caller_step p cs rs g = Some (g', (p', cs', rs'), new) \<Longrightarrow> (\<not> once g \<longrightarrow> errors g = None) \<Longrightarrow>
     totalTasks g' - successCount g' - int (length (elems (errors g'))) - counted p' - total in_flight new
       = totalTasks g - successCount g - int (length (elems (errors g))) - counted p
     \<and> (\<not> once g' \<longrightarrow> errors g' = None)"
  by (cases "(p, cs, rs, g)" rule: caller_step.cases)
     (auto simp: grp_ops started_def split: if_splits option.splits)

lemma thread_step_in_flight:
  assumes "thread_step t g = Some (g', t', new)" and "\<not> once g \<longrightarrow> errors g = None"
    and "gate_ok g t"
  shows "totalTasks g' - successCount g' - int (length (elems (errors g'))) - in_flight t' - total in_flight new
       = totalTasks g - successCount g - int (length (elems (errors g))) - in_flight t + loses t
     \<and> (\<not> once g' \<longrightarrow> errors g' = None)"
proof (cases t)
  case (Caller p cs rs)
  from assms(1) [unfolded Caller] show ?thesis
  proof (cases rule: Caller_stepE)
    case (1 p' cs' rs')
    from caller_step_counted [OF 1(1) assms(2)] Caller 1(2) show ?thesis by simp
  qed
next
  case (Worker w)
  show ?thesis
  proof (cases w)
    case (RunTask p cs rs oc b)
    from assms(1) [unfolded Worker RunTask] show ?thesis
    proof (cases rule: RunTask_stepE)
      case ends
      with assms(2) Worker RunTask show ?thesis by simp
    next
      case (calls p' cs' rs')
      from caller_step_counted [OF calls(1) assms(2)] Worker RunTask calls(2)
      show ?thesis by simp
    qed
  next
    case (Report oc b)
    with Worker assms show ?thesis by (cases oc) (auto simp: grp_ops split: option.splits)
  qed (use Worker assms in \<open>auto split: if_splits option.splits\<close>)
qed

lemma caller_step_added:
  "caller_step p cs rs g = Some (g', (p', cs', rs'), new) \<Longrightarrow>
     wg g' - added p' - total pending new = wg g - added p"
  by (cases "(p, cs, rs, g)" rule: caller_step.cases)
     (auto simp: grp_ops started_def split: if_splits option.splits)

lemma thread_step_pending:
  assumes "thread_step t g = Some (g', t', new)" and "pending t \<le> wg g"
  shows "wg g' - pending t' - total pending new = wg g - pending t"
proof (cases t)
  case (Caller p cs rs)
  from assms(1) [unfolded Caller] show ?thesis
  proof (cases rule: Caller_stepE)
    case (1 p' cs' rs')
    from caller_step_added [OF 1(1)] Caller 1(2) show ?thesis by simp
  qed
next
  case (Worker w)
  show ?thesis
  proof (cases w)
    case (RunTask p cs rs oc b)
    from assms(1) [unfolded Worker RunTask] show ?thesis
    proof (cases rule: RunTask_stepE)
      case ends
      with Worker RunTask show ?thesis by simp
    next
      case (calls p' cs' rs')
      from caller_step_added [OF calls(1)] Worker RunTask calls(2) show ?thesis by simp
    qed
  next
    case (Report oc b)
    with Worker assms show ?thesis by (auto simp: report_frame)
  qed (use Worker assms in \<open>auto split: if_splits option.splits\<close>)
qed

lemma send_SomeD:
  "send ch = Some ch' \<Longrightarrow> \<exists>c n. ch = Some (Chan c n) \<and> n < c \<and> ch' = Some (Chan c (Suc n))"
  by (cases ch rule: send.cases) (auto split: if_splits)

lemma recv_SomeD:
  "recv ch = Some ch' \<Longrightarrow> \<exists>c n. ch = Some (Chan c n) \<and> 0 < n \<and> ch' = Some (Chan c (n - 1))"
  by (cases ch rule: recv.cases) (auto split: if_splits)

lemma caller_step_sent:
  "caller_step p cs rs g = Some (g', (p', cs', rs'), new) \<Longrightarrow> place_ok g p \<Longrightarrow> gate_inv g ts \<Longrightarrow>
     total holds_token ts' = total holds_token ts - sent p + sent p' + total holds_token new \<Longrightarrow>
     gate_inv g' ts'"
  by (cases "(p, cs, rs, g)" rule: caller_step.cases)
     (auto simp: grp_ops gate_inv_def started_def split: if_splits option.splits dest!: send_SomeD)

lemma thread_step_token:
  assumes "thread_step t g = Some (g', t', new)" and "gate_ok g t" and "pending t \<le> wg g"
    and "gate_inv g ts"
    and "total holds_token ts' = total holds_token ts - holds_token t + holds_token t' + total holds_token new"
  shows "gate_inv g' ts'"
proof (cases t)
  case (Caller p cs rs)
  from assms(1) [unfolded Caller] show ?thesis
  proof (cases rule: Caller_stepE)
    case (1 p' cs' rs')
    show ?thesis
      by (rule caller_step_sent [OF 1(1) _ assms(4)]) (use assms(2,5) Caller 1(2) in simp_all)
  qed
next
  case (Worker w)
  show ?thesis
  proof (cases w)
    case (RunTask p cs rs oc b)
    from assms(1) [unfolded Worker RunTask] show ?thesis
    proof (cases rule: RunTask_stepE)
      case ends
      with assms(4,5) Worker RunTask show ?thesis
        by (auto simp: gate_inv_def split: option.splits)
    next
      case (calls p' cs' rs')
      show ?thesis
        by (rule caller_step_sent [OF calls(1) _ assms(4)])
           (use assms(2,5) Worker RunTask calls(2) in simp_all)
    qed
  next
    case (Report oc b)
    with Worker assms show ?thesis
      using report_frame [of oc g] by (auto simp: gate_inv_def split: option.splits)
  qed (use Worker assms in \<open>auto simp: gate_inv_def split: if_splits option.splits dest!: recv_SomeD\<close>)
qed

lemma invariant_step:
  assumes inv: "invariant s" and st: "step i s = Some s'"
  shows "invariant s' \<and> uncounted s' = uncounted s + loses (threads s ! i)"
proof -
  from st have i: "i < length (threads s)"
    by (auto simp: step_def split: if_splits)
  from st i obtain g' t' new where
    ts: "thread_step (threads s ! i) (grp s) = Some (g', t', new)" and
    s': "s' = \<lparr>grp = g', threads = (threads s)[i := t'] @ new\<rparr>"
    by (auto simp: step_def split: option.splits)
  let ?t = "threads s ! i"
  from inv have ok: "gate_ok (grp s) ?t"
    using i by (simp add: invariant_def list_all_length)
  have pend: "pending ?t \<le> wg (grp s)"
    using inv total_member [of pending i "threads s", OF pending_nonneg i]
    by (simp add: invariant_def)
  have fr: "Concurrent g' = Concurrent (grp s)" "once (grp s) \<longrightarrow> once g'"
    using thread_step_frame [OF ts] by simp_all
  have c1: "uncounted s' = uncounted s + loses ?t"
    and c4: "\<not> once g' \<longrightarrow> errors g' = None"
    using thread_step_in_flight [OF ts _ ok] inv i
    by (simp_all add: invariant_def uncounted_def s' total_update)
  have "0 \<le> loses ?t" by (cases ?t rule: loses.cases) simp_all
  with c1 inv have c0: "0 \<le> uncounted s'" by (simp add: invariant_def)
  have c2: "wg g' = total pending ((threads s)[i := t'] @ new)"
    using thread_step_pending [OF ts pend] inv i
    by (simp add: invariant_def total_update)
  have c3: "gate_inv g' ((threads s)[i := t'] @ new)"
    using thread_step_token [OF ts ok pend, of "threads s"] inv i
    by (simp add: invariant_def total_update)
  have new_ok: "gate_ok g' t'" "list_all (gate_ok g') new"
    using thread_step_gate_ok [OF ts ok pend] by simp_all
  have old_ok: "list_all (gate_ok g') (threads s)"
    using inv gate_ok_mono [OF _ fr] by (auto simp: invariant_def list_all_iff)
  have c5: "list_all (gate_ok g') ((threads s)[i := t'] @ new)"
    using new_ok old_ok by (auto simp: list_all_iff dest!: subsetD [OF set_update_subset_insert])
  show ?thesis
    using c0 c1 c2 c3 c4 c5 by (simp add: invariant_def s')
qed

lemma invariant_steps: "steps s s' \<Longrightarrow> invariant s \<Longrightarrow> invariant s'"
  by (induction rule: steps.induct) (auto dest: invariant_step)

lemma invariant_reachable: "steps (init c a scripts) s \<Longrightarrow> invariant s"
  using invariant_steps invariant_init by blast

subsection \<open>Executions\<close>

lemma steps_single: "step i s = Some s' \<Longrightarrow> steps s s'"
  using steps.later [OF steps.start] .

lemma steps_trans: "steps s' s'' \<Longrightarrow> steps s s' \<Longrightarrow> steps s s''"
  by (induction rule: steps.induct) (auto intro: steps.later)

lemma run_steps: "run sched s = Some s' \<Longrightarrow> steps s s'"
proof (induction sched arbitrary: s)
  case Nil
  then show ?case by (simp add: steps.start)
next
  case (Cons i sched)
  then obtain s1 where a: "step i s = Some s1" and b: "run sched s1 = Some s'"
    by (auto split: option.splits)
  from steps_trans [OF Cons.IH [OF b] steps_single [OF a]] show ?case .
qed


lemma step_length: "step j s = Some s' \<Longrightarrow> length (threads s) \<le> length (threads s')"
  by (auto simp: step_def split: if_splits option.splits)

lemma steps_length: "steps s s' \<Longrightarrow> length (threads s) \<le> length (threads s')"
  by (induction rule: steps.induct) (auto dest: step_length)

lemma step_frame:
  "step i s = Some s' \<Longrightarrow>
     Concurrent (grp s') = Concurrent (grp s) \<and> AllowSomeFail (grp s') = AllowSomeFail (grp s) \<and>
     (once (grp s) \<longrightarrow> once (grp s'))"
  using thread_step_frame [of "threads s ! i" "grp s"]
  by (auto simp: step_def split: if_splits option.splits)

lemma steps_frame:
  "steps s s' \<Longrightarrow>
     Concurrent (grp s') = Concurrent (grp s) \<and> AllowSomeFail (grp s') = AllowSomeFail (grp s) \<and>
     (once (grp s) \<longrightarrow> once (grp s'))"
  by (induction rule: steps.induct) (auto dest: step_frame)

lemma reachable_options:
  "steps (init c a scripts) s \<Longrightarrow> Concurrent (grp s) = c \<and> AllowSomeFail (grp s) = a"
  using steps_frame [of "init c a scripts" s] by (simp add: init_def new_Group_def)

lemma total_zero: "(\<And>t. t \<in> set ts \<Longrightarrow> f t = 0) \<Longrightarrow> total f ts = 0"
  by (induction ts) simp_all

lemma total_zeroD:
  "total f ts = 0 \<Longrightarrow> (\<And>t. 0 \<le> f t) \<Longrightarrow> t \<in> set ts \<Longrightarrow> f t = 0"
proof (induction ts)
  case Nil
  then show ?case by simp
next
  case (Cons a ts)
  have nn: "0 \<le> total f ts" using Cons.prems(2) by (induction ts) auto
  have "0 \<le> f a" by (rule Cons.prems(2))
  with nn Cons.prems(1) have "f a = 0" "total f ts = 0" by simp_all
  with Cons show ?case by auto
qed

lemma no_crash: "invariant s \<Longrightarrow> list_all (\<lambda>t. t \<noteq> Worker Crashed) (threads s)"
  by (auto simp: invariant_def list_all_iff)

lemma nil_semaphore:
  "invariant s \<Longrightarrow> Concurrent (grp s) \<le> 0 \<Longrightarrow> semaphore (grp s) = None"
  by (auto simp: invariant_def gate_inv_def split: option.splits)

subsection \<open>Properties of the tasks that steps preserve\<close>

lemma step_preserves:
  assumes pres: "\<forall>t g g' t' new. thread_step t g = Some (g', t', new) \<and> P t \<longrightarrow>
      P t' \<and> list_all P new"
    and all: "list_all P (threads s)" and st: "step i s = Some s'"
  shows "list_all P (threads s')"
proof -
  from st have i: "i < length (threads s)"
    by (auto simp: step_def split: if_splits)
  from st i obtain g' t' new where
    ts: "thread_step (threads s ! i) (grp s) = Some (g', t', new)" and
    s': "s' = \<lparr>grp = g', threads = (threads s)[i := t'] @ new\<rparr>"
    by (auto simp: step_def split: option.splits)
  from all i have "P (threads s ! i)" by (simp add: list_all_length)
  with pres ts have "P t' \<and> list_all P new" by blast
  with all show ?thesis
    by (auto simp: s' list_all_iff dest!: subsetD [OF set_update_subset_insert])
qed

lemma steps_preserve:
  assumes pres: "\<forall>t g g' t' new. thread_step t g = Some (g', t', new) \<and> P t \<longrightarrow>
      P t' \<and> list_all P new"
  shows "steps s s' \<Longrightarrow> list_all P (threads s) \<Longrightarrow> list_all P (threads s')"
proof (induction rule: steps.induct)
  case (start s)
  then show ?case .
next
  case (later s s' i s'')
  then have "list_all P (threads s')" by simp
  from step_preserves [OF pres this later.hyps(2)] show ?case .
qed

lemma started_returns: "returns t \<Longrightarrow> thread_returns (started t b)"
  by (cases t) (simp add: started_def)

lemma caller_step_returns:
  "caller_step p cs rs g = Some (g', (p', cs', rs'), new) \<Longrightarrow>
     place_returns p \<Longrightarrow> list_all call_returns cs \<Longrightarrow>
     place_returns p' \<and> list_all call_returns cs' \<and> list_all thread_returns new"
  by (cases "(p, cs, rs, g)" rule: caller_step.cases)
     (auto simp: started_returns split: if_splits option.splits prod.splits)

lemma thread_step_returns:
  assumes "thread_step t g = Some (g', t', new)" and "thread_returns t"
  shows "thread_returns t' \<and> list_all thread_returns new"
proof (cases t)
  case (Caller p cs rs)
  from assms(1) [unfolded Caller] show ?thesis
  proof (cases rule: Caller_stepE)
    case (1 p' cs' rs')
    from caller_step_returns [OF 1(1)] assms(2) Caller 1(2) show ?thesis by simp
  qed
next
  case (Worker w)
  show ?thesis
  proof (cases w)
    case (RunTask p cs rs oc b)
    from assms(1) [unfolded Worker RunTask] show ?thesis
    proof (cases rule: RunTask_stepE)
      case ends
      with assms(2) Worker RunTask show ?thesis by simp
    next
      case (calls p' cs' rs')
      from caller_step_returns [OF calls(1)] assms(2) Worker RunTask calls(2)
      show ?thesis by simp
    qed
  qed (use Worker assms in \<open>auto split: if_splits option.splits\<close>)
qed

lemma returns_preserved:
  "\<forall>t g g' t' new. thread_step t g = Some (g', t', new) \<and> thread_returns t \<longrightarrow>
     thread_returns t' \<and> list_all thread_returns new"
  using thread_step_returns by blast

lemma returns_loses: "thread_returns t \<Longrightarrow> loses t = 0"
  by (cases t rule: loses.cases) simp_all

lemma init_returns:
  "list_all (list_all call_returns) scripts \<Longrightarrow> list_all thread_returns (threads (init c a scripts))"
  by (induction scripts) (simp_all add: init_def)

lemma uncounted_init: "uncounted (init c a scripts) = 0"
  by (induction scripts) (simp_all add: uncounted_def init_def new_Group_def elems_def)

lemma uncounted_steps:
  assumes "steps s s'" and "invariant s" and "list_all thread_returns (threads s)"
  shows "uncounted s' = uncounted s"
  using assms
proof (induction rule: steps.induct)
  case (start s)
  then show ?case by simp
next
  case (later s s' i s'')
  have inv: "invariant s'" using later.hyps(1) later.prems(1) by (rule invariant_steps)
  have all: "list_all thread_returns (threads s')"
    using steps_preserve [OF returns_preserved later.hyps(1) later.prems(2)] .
  from later.hyps(2) have "i < length (threads s')"
    by (auto simp: step_def split: if_splits)
  with all have "loses (threads s' ! i) = 0"
    by (simp add: list_all_length returns_loses)
  with invariant_step [OF inv later.hyps(2)] later.IH [OF later.prems] show ?case by simp
qed

lemma started_plain: "calls t = [] \<Longrightarrow> thread_plain (started t b)"
  by (simp add: started_def)

lemma caller_step_plain:
  "caller_step p cs rs g = Some (g', (p', cs', rs'), new) \<Longrightarrow>
     place_plain p \<Longrightarrow> list_all call_plain cs \<Longrightarrow>
     place_plain p' \<and> list_all call_plain cs' \<and> list_all thread_plain new"
  by (cases "(p, cs, rs, g)" rule: caller_step.cases)
     (auto simp: started_plain split: if_splits option.splits prod.splits)

lemma thread_step_plain:
  assumes "thread_step t g = Some (g', t', new)" and "thread_plain t"
  shows "thread_plain t' \<and> list_all thread_plain new"
proof (cases t)
  case (Caller p cs rs)
  from assms(1) [unfolded Caller] show ?thesis
  proof (cases rule: Caller_stepE)
    case (1 p' cs' rs')
    from caller_step_plain [OF 1(1)] assms(2) Caller 1(2) show ?thesis by simp
  qed
next
  case (Worker w)
  with assms show ?thesis
    by (cases w) (auto split: if_splits option.splits)
qed

lemma plain_preserved:
  "\<forall>t g g' t' new. thread_step t g = Some (g', t', new) \<and> thread_plain t \<longrightarrow>
     thread_plain t' \<and> list_all thread_plain new"
  using thread_step_plain by blast

lemma init_plain:
  "list_all (list_all call_plain) scripts \<Longrightarrow> list_all thread_plain (threads (init c a scripts))"
  by (induction scripts) (simp_all add: init_def)

lemma reachable_plain:
  assumes "steps (init c a scripts) s" and "list_all (list_all call_plain) scripts"
  shows "list_all thread_plain (threads s)"
  using steps_preserve [OF plain_preserved assms(1) init_plain [OF assms(2)]] .

subsection \<open>Progress and termination\<close>

lemma started_weight: "weight (started t b) = 4 + task_weight t"
  by (cases t) (simp add: started_def)

lemma caller_step_weight:
  "caller_step p cs rs g = Some (g', (p', cs', rs'), new) \<Longrightarrow>
     pc_weight p' + sum_list (map call_weight cs') + sum_list (map weight new)
       < pc_weight p + sum_list (map call_weight cs)"
  by (cases "(p, cs, rs, g)" rule: caller_step.cases)
     (auto simp: started_weight split: if_splits option.splits prod.splits)

lemma thread_step_weight:
  assumes "thread_step t g = Some (g', t', new)"
  shows "weight t' + sum_list (map weight new) < weight t"
proof (cases t)
  case (Caller p cs rs)
  from assms [unfolded Caller] show ?thesis
  proof (cases rule: Caller_stepE)
    case (1 p' cs' rs')
    from caller_step_weight [OF 1(1)] Caller 1(2) show ?thesis by simp
  qed
next
  case (Worker w)
  show ?thesis
  proof (cases w)
    case (RunTask p cs rs oc b)
    from assms [unfolded Worker RunTask] show ?thesis
    proof (cases rule: RunTask_stepE)
      case ends
      with Worker RunTask show ?thesis by simp
    next
      case (calls p' cs' rs')
      from caller_step_weight [OF calls(1)] Worker RunTask calls(2) show ?thesis by simp
    qed
  qed (use Worker assms in \<open>auto split: if_splits option.splits\<close>)
qed

lemma sum_list_update_nat:
  "i < length ts \<Longrightarrow>
     sum_list (map (f :: 'a \<Rightarrow> nat) (ts[i := t] @ new)) + f (ts ! i) =
     sum_list (map f ts) + f t + sum_list (map f new)"
proof (induction ts arbitrary: i)
  case Nil then show ?case by simp
next
  case (Cons a ts)
  then show ?case by (cases i) (simp_all add: algebra_simps)
qed

lemma step_decreases: "step i s = Some s' \<Longrightarrow> steps_left s' < steps_left s"
proof -
  assume st: "step i s = Some s'"
  then have i: "i < length (threads s)"
    by (auto simp: step_def split: if_splits)
  from st i obtain g' t' new where
    ts: "thread_step (threads s ! i) (grp s) = Some (g', t', new)" and
    s': "s' = \<lparr>grp = g', threads = (threads s)[i := t'] @ new\<rparr>"
    by (auto simp: step_def split: option.splits)
  from thread_step_weight [OF ts] sum_list_update_nat [OF i, of weight t' new]
  show ?thesis by (simp add: steps_left_def s')
qed

lemma run_length: "run sched s = Some s' \<Longrightarrow> length sched + steps_left s' \<le> steps_left s"
proof (induction sched arbitrary: s)
  case Nil then show ?case by simp
next
  case (Cons i sched)
  then obtain s1 where a: "step i s = Some s1" and b: "run sched s1 = Some s'"
    by (auto split: option.splits)
  from Cons.IH [OF b] step_decreases [OF a] show ?case by simp
qed

lemma caller_blocked_cases:
  "caller_step p cs rs g = None \<Longrightarrow>
     (p = Idle \<and> cs = []) \<or>
     (\<exists>cs'. p = Idle \<and> cs = CallWait # cs' \<and> wg g \<noteq> 0) \<or>
     (\<exists>cs'. p = Idle \<and> cs = Hang # cs') \<or>
     (\<exists>task. p = GoSend task \<and> send (semaphore g) = None)"
  by (cases "(p, cs, rs, g)" rule: caller_step.cases)
     (auto split: if_splits option.splits prod.splits)

lemma Caller_blocked:
  "thread_step (Caller p cs rs) g = None \<Longrightarrow> caller_step p cs rs g = None"
  by (auto split: option.splits prod.splits)

lemma blocked_cases:
  assumes "thread_step t g = None" and "thread_plain t"
  shows "finished t \<or> t = Worker Crashed \<or>
     (\<exists>cs rs. t = Caller Idle (CallWait # cs) rs \<and> wg g \<noteq> 0) \<or>
     (\<exists>task cs rs. t = Caller (GoSend task) cs rs \<and> send (semaphore g) = None) \<or>
     (t = Worker Release \<and> recv (semaphore g) = None)"
proof (cases t)
  case (Caller p cs rs)
  from assms(1) have "thread_step (Caller p cs rs) g = None" unfolding Caller .
  then have "caller_step p cs rs g = None" by (rule Caller_blocked)
  from caller_blocked_cases [OF this] Caller assms(2) show ?thesis by auto
next
  case (Worker w)
  with assms show ?thesis
    by (cases w) (auto split: if_splits option.splits)
qed

lemma finished_idle: "finished t \<Longrightarrow> holds_token t = 0 \<and> pending t = 0"
  by (cases t rule: finished.cases) simp_all

lemma progress:
  assumes inv: "invariant s" and c: "0 \<le> Concurrent (grp s)"
    and plain: "list_all thread_plain (threads s)"
    and stuck: "\<forall>i. step i s = None"
  shows "list_all finished (threads s)"
proof -
  let ?g = "grp s" and ?ts = "threads s"
  have ok: "gate_ok ?g t" if "t \<in> set ?ts" for t
    using inv that by (simp add: invariant_def list_all_iff)
  have gi: "gate_inv ?g ?ts" and w: "wg ?g = total pending ?ts"
    using inv by (simp_all add: invariant_def)
  have blocked: "thread_step t ?g = None" if "t \<in> set ?ts" for t
  proof -
    from that obtain i where i: "i < length ?ts" "?ts ! i = t"
      by (auto simp: in_set_conv_nth)
    with stuck [rule_format, of i] show ?thesis
      by (auto simp: step_def split: option.splits)
  qed
  have tok_le: "holds_token t \<le> total holds_token ?ts" if "t \<in> set ?ts" for t
  proof -
    from that obtain i where i: "i < length ?ts" "?ts ! i = t"
      by (auto simp: in_set_conv_nth)
    with total_member [of holds_token i ?ts, OF holds_token_nonneg] show ?thesis by simp
  qed
  have no_release: "t \<noteq> Worker Release" if t: "t \<in> set ?ts" for t
  proof
    assume r: "t = Worker Release"
    with blocked [OF t] have "recv (semaphore ?g) = None" by (simp split: option.splits)
    moreover from tok_le [OF t] r have "1 \<le> total holds_token ?ts" by simp
    ultimately show False using gi
      by (cases "semaphore ?g" rule: recv.cases) (auto simp: gate_inv_def split: if_splits)
  qed
  have cls: "finished t \<or>
     (\<exists>cs rs. t = Caller Idle (CallWait # cs) rs \<and> wg ?g \<noteq> 0) \<or>
     (\<exists>task cs rs. t = Caller (GoSend task) cs rs \<and> send (semaphore ?g) = None)"
    if t: "t \<in> set ?ts" for t
  proof -
    from plain t have "thread_plain t" by (simp add: list_all_iff)
    from blocked_cases [OF blocked [OF t] this] no_release [OF t] ok [OF t]
    show ?thesis by auto
  qed
  have "total holds_token ?ts = 0"
  proof (rule total_zero)
    fix t assume "t \<in> set ?ts"
    from cls [OF this] show "holds_token t = 0" by (auto dest: finished_idle)
  qed
  have no_send: "t \<noteq> Caller (GoSend task) cs rs" if t: "t \<in> set ?ts" for t task cs rs
  proof
    assume r: "t = Caller (GoSend task) cs rs"
    from blocked [OF t] have "thread_step (Caller (GoSend task) cs rs) ?g = None"
      unfolding r .
    from Caller_blocked [OF this] have "send (semaphore ?g) = None"
      by (simp split: option.splits)
    moreover from ok [OF t] r c have "once ?g" "0 < Concurrent ?g" by auto
    ultimately show False using gi \<open>total holds_token ?ts = 0\<close>
      by (cases "semaphore ?g" rule: send.cases) (auto simp: gate_inv_def split: if_splits)
  qed
  have cls2: "finished t \<or> (\<exists>cs rs. t = Caller Idle (CallWait # cs) rs \<and> wg ?g \<noteq> 0)"
    if t: "t \<in> set ?ts" for t
    using cls [OF t] no_send [OF t] by auto
  have "total pending ?ts = 0"
  proof (rule total_zero)
    fix t assume "t \<in> set ?ts"
    from cls2 [OF this] show "pending t = 0" by (auto dest: finished_idle)
  qed
  with w have "wg ?g = 0" by simp
  with cls2 show ?thesis by (auto simp: list_all_iff)
qed

lemma reachable_progress:
  assumes "steps (init c a scripts) s" and "0 \<le> c" and "list_all (list_all call_plain) scripts"
    and "\<forall>i. step i s = None"
  shows "list_all finished (threads s)"
  using progress [OF invariant_reachable [OF assms(1)] _ reachable_plain [OF assms(1,3)] assms(4)]
    reachable_options [OF assms(1)] assms(2) by simp

subsection \<open>The concurrency bound\<close>

lemma alive_holds_token:
  "gate_ok g t \<Longrightarrow> Concurrent g \<noteq> 0 \<Longrightarrow> (if alive t then 1 else 0) \<le> holds_token t"
  using sent_nonneg by (cases "(g, t)" rule: gate_ok.cases) (auto simp: add_increasing2)

lemma running_alive: "running t \<Longrightarrow> alive t"
  by (cases t rule: running.cases) simp_all

lemma alive_le_tokens:
  "list_all (gate_ok g) ts \<Longrightarrow> Concurrent g \<noteq> 0 \<Longrightarrow>
     int (length (filter alive ts)) \<le> total holds_token ts"
proof (induction ts)
  case Nil
  then show ?case by simp
next
  case (Cons t ts)
  from Cons.prems have t: "gate_ok g t" and ts: "list_all (gate_ok g) ts" by simp_all
  have "(if alive t then 1 else 0) \<le> holds_token t"
    using alive_holds_token [OF t Cons.prems(2)] .
  moreover have "int (length (filter alive ts)) \<le> total holds_token ts"
    using Cons.IH [OF ts Cons.prems(2)] .
  ultimately show ?case by (simp split: if_splits)
qed

lemma running_le_alive: "length (filter running ts) \<le> length (filter alive ts)"
  by (induction ts) (auto dest: running_alive)

subsection \<open>The combined message\<close>




subsection \<open>A negative bound\<close>

lemma caller_step_admitted:
  "caller_step p cs rs g = Some (g', (p', cs', rs'), new) \<Longrightarrow> admitted p \<Longrightarrow>
     Concurrent g < 0 \<Longrightarrow> semaphore g = None \<Longrightarrow> cs' = cs \<and> rs' = rs \<and> admitted p'"
  by (cases p) (auto split: if_splits)

lemma admitted_stays_step:
  assumes inv: "invariant s" and c: "Concurrent (grp s) < 0"
    and i: "i < length (threads s)" and t: "threads s ! i = Caller p cs rs" and p: "admitted p"
    and st: "step j s = Some s'"
  shows "\<exists>p'. threads s' ! i = Caller p' cs rs \<and> admitted p'"
proof -
  from st have j: "j < length (threads s)"
    by (auto simp: step_def split: if_splits)
  from st j obtain g' t' new where
    ts: "thread_step (threads s ! j) (grp s) = Some (g', t', new)" and
    s': "s' = \<lparr>grp = g', threads = (threads s)[j := t'] @ new\<rparr>"
    by (auto simp: step_def split: option.splits)
  have sem: "semaphore (grp s) = None" using nil_semaphore [OF inv] c by simp
  show ?thesis
  proof (cases "j = i")
    case False
    with i t p show ?thesis by (simp add: s' nth_append)
  next
    case True
    from ts have "thread_step (Caller p cs rs) (grp s) = Some (g', t', new)"
      unfolding True t .
    then show ?thesis
    proof (cases rule: Caller_stepE)
      case (1 p' cs' rs')
      from caller_step_admitted [OF 1(1) p c sem] 1(2) True i show ?thesis
        by (simp add: s' nth_append)
    qed
  qed
qed

lemma admitted_stays:
  assumes "steps s s'" and "invariant s" and "Concurrent (grp s) < 0"
    and "i < length (threads s)" and "threads s ! i = Caller p cs rs" and "admitted p"
  shows "i < length (threads s') \<and> (\<exists>p'. threads s' ! i = Caller p' cs rs \<and> admitted p')"
  using assms
proof (induction rule: steps.induct)
  case (start s)
  then show ?case by auto
next
  case (later s s' j s'')
  then obtain p' where a: "i < length (threads s')" "threads s' ! i = Caller p' cs rs" "admitted p'"
    by auto
  have inv: "invariant s'" using later.hyps(1) later.prems(1) by (rule invariant_steps)
  have c: "Concurrent (grp s') < 0" using steps_frame [OF later.hyps(1)] later.prems(2) by simp
  from admitted_stays_step [OF inv c a later.hyps(2)] step_length [OF later.hyps(2)] a(1)
  show ?case by auto
qed

subsection \<open>One unit from the end of its task to the end of its goroutine\<close>

lemma unit_runs_to_its_end:
  assumes inv: "invariant s" and i: "i < length (threads s)"
    and t: "threads s ! i = Worker (RunTask Idle [] rs oc b)"
  shows "\<exists>s'. run (unit_schedule i b) s = Some s' \<and>
           threads s' = (threads s)[i := Worker Exited] \<and>
           grp s' = (report oc (grp s))\<lparr>wg := wg (grp s) - 1, semaphore := semaphore (grp s')\<rparr> \<and>
           (if b then \<exists>c n. semaphore (grp s) = Some (Chan c (Suc n)) \<and>
                       semaphore (grp s') = Some (Chan c n)
            else semaphore (grp s') = semaphore (grp s))"
proof -
  let ?ts = "threads s" and ?g = "grp s"
  have wgpos: "1 \<le> wg ?g"
    using inv t total_member [of pending i ?ts, OF pending_nonneg i]
    by (simp add: invariant_def)
  have tok: "b \<Longrightarrow> 1 \<le> total holds_token ?ts"
    using t total_member [of holds_token i ?ts, OF holds_token_nonneg i] by simp
  have sem: "\<exists>c n. semaphore ?g = Some (Chan c (Suc n))" if b
  proof -
    from inv have "gate_inv ?g ?ts" by (simp add: invariant_def)
    with tok [OF that] obtain ch where ch: "semaphore ?g = Some ch" "1 \<le> buffered ch"
      by (auto simp: gate_inv_def split: option.splits)
    then show ?thesis by (cases ch; cases "buffered ch") auto
  qed
  define s1 where "s1 = \<lparr>grp = ?g, threads = ?ts[i := Worker (Report oc b)]\<rparr>"
  define s2 where "s2 = \<lparr>grp = report oc ?g, threads = ?ts[i := Worker (WgDone b)]\<rparr>"
  define s3 where "s3 = \<lparr>grp = (report oc ?g)\<lparr>wg := wg ?g - 1\<rparr>,
    threads = ?ts[i := Worker (if b then Release else Exited)]\<rparr>"
  have 1: "step i s = Some s1"
    using i t by (simp add: step_def s1_def)
  have 2: "step i s1 = Some s2"
    using i by (simp add: step_def s1_def s2_def)
  have 3: "step i s2 = Some s3"
    using i wgpos report_frame [of oc ?g] by (simp add: step_def s2_def s3_def)
  show ?thesis
  proof (cases b)
    case False
    then have "run (unit_schedule i b) s = Some s3"
      using 1 2 3 by (simp add: unit_schedule_def)
    with False show ?thesis
      using report_frame [of oc ?g] by (simp add: s3_def)
  next
    case True
    from sem [OF True] obtain c n where cn: "semaphore ?g = Some (Chan c (Suc n))" by auto
    define s4 where "s4 = \<lparr>grp = (report oc ?g)\<lparr>wg := wg ?g - 1, semaphore := Some (Chan c n)\<rparr>,
      threads = ?ts[i := Worker Exited]\<rparr>"
    have 4: "step i s3 = Some s4"
      using i True cn report_frame [of oc ?g] by (simp add: step_def s3_def s4_def)
    have "run (unit_schedule i b) s = Some s4"
      using 1 2 3 4 True by (simp add: unit_schedule_def)
    with True cn show ?thesis by (simp add: s4_def)
  qed
qed

subsection \<open>Growth of the counters, and calls run alone\<close>

lemma caller_step_grows:
  "caller_step p cs rs g = Some (g', (p', cs', rs'), new) \<Longrightarrow> (\<not> once g \<longrightarrow> errors g = None) \<Longrightarrow>
     successCount g \<le> successCount g' \<and> totalTasks g \<le> totalTasks g' \<and>
     (\<exists>ys. elems (errors g') = elems (errors g) @ ys)"
  by (cases "(p, cs, rs, g)" rule: caller_step.cases)
     (auto simp: grp_ops split: if_splits option.splits)

lemma report_grows:
  "successCount g \<le> successCount (report oc g) \<and> totalTasks g \<le> totalTasks (report oc g) \<and>
   (\<exists>ys. elems (errors (report oc g)) = elems (errors g) @ ys) \<and>
   (errors g \<noteq> None \<longrightarrow> errors (report oc g) \<noteq> None)"
  by (cases oc) (auto simp: grp_ops split: option.splits)

lemma thread_step_grows:
  assumes "thread_step t g = Some (g', t', new)" and "\<not> once g \<longrightarrow> errors g = None"
  shows "successCount g \<le> successCount g' \<and> totalTasks g \<le> totalTasks g' \<and>
     (\<exists>ys. elems (errors g') = elems (errors g) @ ys)"
proof (cases t)
  case (Caller p cs rs)
  from assms(1) [unfolded Caller] show ?thesis
  proof (cases rule: Caller_stepE)
    case (1 p' cs' rs')
    from caller_step_grows [OF 1(1) assms(2)] show ?thesis by simp
  qed
next
  case (Worker w)
  show ?thesis
  proof (cases w)
    case (RunTask p cs rs oc b)
    from assms(1) [unfolded Worker RunTask] show ?thesis
    proof (cases rule: RunTask_stepE)
      case ends
      then show ?thesis by simp
    next
      case (calls p' cs' rs')
      from caller_step_grows [OF calls(1) assms(2)] show ?thesis by simp
    qed
  next
    case (Report oc b)
    with Worker assms(1) report_grows [of g oc] show ?thesis by auto
  qed (use Worker assms in \<open>auto split: if_splits option.splits\<close>)
qed

lemma step_grows:
  assumes "invariant s" and "step i s = Some s'"
  shows "successCount (grp s) \<le> successCount (grp s') \<and> totalTasks (grp s) \<le> totalTasks (grp s') \<and>
     (\<exists>ys. elems (errors (grp s')) = elems (errors (grp s)) @ ys)"
proof -
  from assms(2) obtain g' t' new where
    ts: "thread_step (threads s ! i) (grp s) = Some (g', t', new)" and
    s': "s' = \<lparr>grp = g', threads = (threads s)[i := t'] @ new\<rparr>"
    by (auto simp: step_def split: option.splits if_splits)
  from assms(1) have "\<not> once (grp s) \<longrightarrow> errors (grp s) = None"
    by (simp add: invariant_def)
  from thread_step_grows [OF ts this] show ?thesis by (simp add: s')
qed

lemma steps_grows:
  assumes "steps s s'" and "invariant s"
  shows "successCount (grp s) \<le> successCount (grp s') \<and> totalTasks (grp s) \<le> totalTasks (grp s') \<and>
     (\<exists>ys. elems (errors (grp s')) = elems (errors (grp s)) @ ys)"
  using assms
proof (induction rule: steps.induct)
  case (start s)
  then show ?case by simp
next
  case (later s s' i s'')
  have "invariant s'" using later.hyps(1) later.prems by (rule invariant_steps)
  from step_grows [OF this later.hyps(2)] later.IH [OF later.prems]
  show ?case by (auto simp: order_trans)
qed

lemma thread_step_allocated:
  assumes "thread_step t g = Some (g', t', new)" and "once g \<longrightarrow> errors g \<noteq> None"
  shows "once g' \<longrightarrow> errors g' \<noteq> None"
proof (cases t)
  case (Caller p cs rs)
  from assms(1) [unfolded Caller] show ?thesis
  proof (cases rule: Caller_stepE)
    case (1 p' cs' rs')
    with assms(2) show ?thesis
      by (cases "(p, cs, rs, g)" rule: caller_step.cases)
         (auto simp: grp_ops split: if_splits option.splits)
  qed
next
  case (Worker w)
  show ?thesis
  proof (cases w)
    case (RunTask p cs rs oc b)
    from assms(1) [unfolded Worker RunTask] show ?thesis
    proof (cases rule: RunTask_stepE)
      case ends
      with assms(2) show ?thesis by simp
    next
      case (calls p' cs' rs')
      with assms(2) show ?thesis
        by (cases "(p, cs, rs, g)" rule: caller_step.cases)
           (auto simp: grp_ops split: if_splits option.splits)
    qed
  next
    case (Report oc b)
    with Worker assms show ?thesis by (cases oc) (auto simp: grp_ops)
  qed (use Worker assms in \<open>auto split: if_splits option.splits\<close>)
qed

lemma errors_allocated:
  "steps s s' \<Longrightarrow> (once (grp s) \<longrightarrow> errors (grp s) \<noteq> None) \<Longrightarrow>
     once (grp s') \<longrightarrow> errors (grp s') \<noteq> None"
proof (induction rule: steps.induct)
  case (start s)
  then show ?case by simp
next
  case (later s s' i s'')
  from later.hyps(2) obtain g' t' new where
    ts: "thread_step (threads s' ! i) (grp s') = Some (g', t', new)" and
    s'': "s'' = \<lparr>grp = g', threads = (threads s')[i := t'] @ new\<rparr>"
    by (auto simp: step_def split: option.splits if_splits)
  have a: "once (grp s') \<longrightarrow> errors (grp s') \<noteq> None" using later by simp
  from thread_step_allocated [OF ts a] show ?case by (simp add: s'')
qed



lemma in_flight_idle: "pending t = 0 \<Longrightarrow> \<not> in_call t \<Longrightarrow> in_flight t = 0"
proof (cases t)
  case (Caller p cs rs)
  assume "\<not> in_call t"
  with Caller have "p = Idle" by (cases p) simp_all
  with Caller show ?thesis by simp
next
  case (Worker w)
  assume "pending t = 0"
  with Worker added_nonneg show ?thesis
    by (cases w) (auto simp: add_nonneg_eq_0_iff)
qed

subsection \<open>The concrete executions\<close>

lemma mixed_units_run:
  "run [0,0,0,0,0, 0,0,0,0,0, 0,0,0,0,0, 3,3, 1,1,1, 2,2,2, 3, 0,0,0] mixed_units
     = Some mixed_units_done"
  by code_simp

lemma mixed_units_steps:
  "steps (init 0 True [[CallGo (unit Ok), CallGo (unit (Err ''E1'')), CallGo (unit (Panic ''P1'')),
                        CallWait]])
     mixed_units_done"
  using run_steps [OF mixed_units_run] by (simp add: mixed_units_def)

lemma goexit_unit_run: "run [0,0,0,0,0, 1,1,1, 0,0] goexit_unit = Some goexit_unit_done"
  by code_simp


lemma three_bounded_run_full:
  "run [0,0,0,0,0,0,0, 0,0,0,0,0,0,0, 0,0,0,0,0] three_bounded = Some three_bounded_full"
  by code_simp

lemma three_bounded_run_done:
  "run [1,1,1,1, 0,0, 2,2,2,2, 3,3,3,3, 0,0] three_bounded_full = Some three_bounded_done"
  by code_simp

lemma nested_bounded_run:
  "run [0,0,0,0,0,0,0, 1,1,1,1,1] nested_bounded = Some nested_bounded_stuck"
  by code_simp

lemma negative_bound_run_admitted: "run [0, 0] negative_bound = Some negative_bound_admitted"
  by code_simp

lemma negative_bound_run_stuck: "run [0, 0, 0] negative_bound_admitted = Some negative_bound_stuck"
  by code_simp

lemma panic_bounded_run_started: "run [0,0,0,0,0,0,0] panic_bounded = Some panic_bounded_started"
  by code_simp

lemma panic_bounded_run_ended:
  "run (unit_schedule 1 True) panic_bounded_started = Some panic_bounded_ended"
  by code_simp

lemma panic_bounded_steps:
  "steps (init 2 False [[CallGo (unit (Panic ''P1'')), CallWait]]) panic_bounded_started"
  using run_steps [OF panic_bounded_run_started] by (simp add: panic_bounded_def)

lemma fail_fast_run_failed:
  "run [0,0,0,0,0,0,0, 1,1,1,1, 0,0,0,0,0,0,0, 2,2,2,2] fail_fast = Some fail_fast_failed"
  by code_simp

lemma fail_fast_run_denied: "run [0, 0] fail_fast_failed = Some fail_fast_denied"
  by code_simp



lemma unit_plain: "call_plain (CallGo (unit oc))"
  by (simp add: unit_def)

lemma unit_returns: "oc \<noteq> Goexit \<Longrightarrow> call_returns (CallGo (unit oc))"
  by (simp add: unit_def)

subsection \<open>The claims\<close>

text \<open>
  C8. On a Group on which \<^verbatim>\<open>Go\<close> was never called, whatever its two options are, \<^verbatim>\<open>Wait\<close> does
  not block and returns \<open>(0, nil)\<close>.
\<close>

theorem Wait_on_fresh_Group: "Wait (new_Group c a) = Some (0, None)"
  by (simp add: Wait_def Wait_result_def getStats_def new_Group_def elems_def)

text \<open>
  C1, as the claim states it, fails: a unit whose task ends with \<^verbatim>\<open>runtime.Goexit()\<close> is admitted
  and counted in \<^verbatim>\<open>totalTasks\<close>; its deferred \<^verbatim>\<open>recover()\<close> returns \<^verbatim>\<open>nil\<close>, so no failure is
  recorded, and \<^verbatim>\<open>addSuccessCount\<close> is not reached. After \<^verbatim>\<open>Wait\<close> has returned and with nothing in
  flight, \<^verbatim>\<open>successCount\<close> plus the number of failures is 0 and \<^verbatim>\<open>totalTasks\<close> is 1.
\<close>

theorem Goexit_unit_counted_nowhere:
  "steps (init 0 True [[CallGo (unit Goexit), CallWait]]) goexit_unit_done \<and>
   threads goexit_unit_done = [Caller Idle [] [(0, None)], Worker Exited] \<and>
   wg (grp goexit_unit_done) = 0 \<and>
   list_all (\<lambda>t. in_flight t = 0 \<and> \<not> in_call t) (threads goexit_unit_done) \<and>
   totalTasks (grp goexit_unit_done) = 1 \<and>
   successCount (grp goexit_unit_done) + int (length (elems (errors (grp goexit_unit_done)))) = 0 \<and>
   successCount (grp goexit_unit_done) + int (length (elems (errors (grp goexit_unit_done))))
     \<noteq> totalTasks (grp goexit_unit_done)"
  using run_steps [OF goexit_unit_run]
  by (simp add: goexit_unit_def goexit_unit_done_def elems_def)

text \<open>
  C1, amended. In every state that an execution from a fresh Group reaches, \<^verbatim>\<open>successCount\<close> plus
  the number of recorded failures plus the number of admitted units that have not reported yet is
  at most \<^verbatim>\<open>totalTasks\<close>: no unit is counted twice. When every task returns or panics (none ends
  with \<^verbatim>\<open>runtime.Goexit\<close> and none hangs, neither a submitted one nor one that a task submits), the
  two are equal. So then, when no unit is in flight, and in particular when the WaitGroup counter
  is zero (which lets \<^verbatim>\<open>Wait\<close> return) while no caller is inside a call, \<^verbatim>\<open>successCount\<close> plus the
  number of recorded failures equals \<^verbatim>\<open>totalTasks\<close>: each admitted unit is counted exactly once.
\<close>

theorem every_returning_unit_counted_once:
  assumes "steps (init c a scripts) s"
  shows "successCount (grp s) + int (length (elems (errors (grp s)))) + total in_flight (threads s)
           \<le> totalTasks (grp s) \<and>
         (list_all (list_all call_returns) scripts \<longrightarrow>
            totalTasks (grp s) =
              successCount (grp s) + int (length (elems (errors (grp s)))) +
              total in_flight (threads s) \<and>
            ((\<forall>t \<in> set (threads s). in_flight t = 0) \<longrightarrow>
               successCount (grp s) + int (length (elems (errors (grp s)))) = totalTasks (grp s)) \<and>
            (wg (grp s) = 0 \<and> (\<forall>t \<in> set (threads s). \<not> in_call t) \<longrightarrow>
               successCount (grp s) + int (length (elems (errors (grp s)))) = totalTasks (grp s)))"
proof -
  have inv: "invariant s" using assms by (rule invariant_reachable)
  then have le: "successCount (grp s) + int (length (elems (errors (grp s)))) +
      total in_flight (threads s) \<le> totalTasks (grp s)"
    by (simp add: invariant_def uncounted_def)
  have rest: "totalTasks (grp s) =
              successCount (grp s) + int (length (elems (errors (grp s)))) +
              total in_flight (threads s) \<and>
            ((\<forall>t \<in> set (threads s). in_flight t = 0) \<longrightarrow>
               successCount (grp s) + int (length (elems (errors (grp s)))) = totalTasks (grp s)) \<and>
            (wg (grp s) = 0 \<and> (\<forall>t \<in> set (threads s). \<not> in_call t) \<longrightarrow>
               successCount (grp s) + int (length (elems (errors (grp s)))) = totalTasks (grp s))"
    if ret: "list_all (list_all call_returns) scripts"
  proof -
    have "uncounted s = uncounted (init c a scripts)"
      using uncounted_steps [OF assms invariant_init init_returns [OF ret]] .
    also have "\<dots> = 0" by (rule uncounted_init)
    finally have eq: "totalTasks (grp s) =
        successCount (grp s) + int (length (elems (errors (grp s)))) + total in_flight (threads s)"
      by (simp add: uncounted_def)
    have a: "total in_flight (threads s) = 0" if "\<forall>t \<in> set (threads s). in_flight t = 0"
      using that by (auto intro: total_zero)
    have b: "total in_flight (threads s) = 0"
      if w: "wg (grp s) = 0" and idle: "\<forall>t \<in> set (threads s). \<not> in_call t"
    proof (rule total_zero)
      fix t assume t: "t \<in> set (threads s)"
      from inv w have "total pending (threads s) = 0" by (simp add: invariant_def)
      then have "pending t = 0" using pending_nonneg t by (rule total_zeroD)
      with idle t show "in_flight t = 0" by (simp add: in_flight_idle)
    qed
    from eq a b show ?thesis by auto
  qed
  from le rest show ?thesis by blast
qed

theorem every_returning_unit_counted_once_witness:
  "steps (init 0 True [[CallGo (unit Ok), CallGo (unit (Err ''E1'')), CallGo (unit (Panic ''P1'')),
                        CallWait]])
     mixed_units_done \<and>
   list_all (list_all call_returns)
     [[CallGo (unit Ok), CallGo (unit (Err ''E1'')), CallGo (unit (Panic ''P1'')), CallWait]] \<and>
   wg (grp mixed_units_done) = 0 \<and>
   list_all (\<lambda>t. \<not> in_call t \<and> in_flight t = 0) (threads mixed_units_done) \<and>
   totalTasks (grp mixed_units_done) = 3 \<and>
   successCount (grp mixed_units_done) + int (length (elems (errors (grp mixed_units_done)))) = 3"
proof -
  have r: "list_all (list_all call_returns)
     [[CallGo (unit Ok), CallGo (unit (Err ''E1'')), CallGo (unit (Panic ''P1'')), CallWait]]"
    by (simp add: unit_def)
  have q: "wg (grp mixed_units_done) = 0"
    "list_all (\<lambda>t. \<not> in_call t \<and> in_flight t = 0) (threads mixed_units_done)"
    "totalTasks (grp mixed_units_done) = 3"
    by (simp_all add: mixed_units_done_def)
  from every_returning_unit_counted_once [OF mixed_units_steps] r q
  have "successCount (grp mixed_units_done) + int (length (elems (errors (grp mixed_units_done)))) = 3"
    by (auto simp: list_all_iff)
  with mixed_units_steps r q show ?thesis by blast
qed




text \<open>
  C6, as the claim states it, fails: with \<^verbatim>\<open>Concurrent = 1\<close>, a unit whose task calls \<^verbatim>\<open>Go\<close> on the
  same Group holds the only element of the semaphore while that call waits at the send. No
  goroutine can take a step, the inner unit is never started, and neither the call of \<^verbatim>\<open>Go\<close>
  nor the \<^verbatim>\<open>Wait\<close> of the caller returns.
\<close>

theorem nested_Go_deadlock:
  "steps (init 1 False [[CallGo (Task [CallGo (unit Ok)] Ok), CallWait]]) nested_bounded_stuck \<and>
   threads nested_bounded_stuck =
     [Caller Idle [CallWait] [], Worker (RunTask (GoSend (unit Ok)) [] [] Ok True)] \<and>
   (\<forall>i. step i nested_bounded_stuck = None) \<and>
   \<not> list_all finished (threads nested_bounded_stuck)"
proof -
  have r: "steps (init 1 False [[CallGo (Task [CallGo (unit Ok)] Ok), CallWait]]) nested_bounded_stuck"
    using run_steps [OF nested_bounded_run] by (simp add: nested_bounded_def)
  have s: "\<forall>i. step i nested_bounded_stuck = None"
    by (simp add: step_def nested_bounded_stuck_def nth_Cons split: nat.splits)
  from r s show ?thesis by (simp add: nested_bounded_stuck_def)
qed

text \<open>
  C6, amended. In every state that an execution from a fresh Group with \<^verbatim>\<open>Concurrent = c > 0\<close>
  reaches, at most \<open>c\<close> units run, and at most \<open>c\<close> goroutines of units are alive. When no task
  hangs or calls \<^verbatim>\<open>Go\<close> or \<^verbatim>\<open>Wait\<close> on the Group, no such state is a deadlock: if no goroutine can
  take a step, every caller has returned from all its calls, \<^verbatim>\<open>Wait\<close> included, and every unit
  has reported and ended. And the goroutines take finitely many steps: from a state \<open>s\<close> at most
  \<open>steps_left s\<close> steps can follow. So all admitted units report and \<^verbatim>\<open>Wait\<close> returns.
\<close>

theorem at_most_Concurrent_units_run:
  assumes "steps (init c a scripts) s" and "0 < c"
  shows "length (filter running (threads s)) \<le> nat c \<and>
         length (filter alive (threads s)) \<le> nat c \<and>
         (list_all (list_all call_plain) scripts \<longrightarrow>
            (\<forall>i. step i s = None) \<longrightarrow> list_all finished (threads s)) \<and>
         (\<forall>sched s'. run sched s = Some s' \<longrightarrow> length sched \<le> steps_left s)"
proof -
  have inv: "invariant s" using assms(1) by (rule invariant_reachable)
  have c: "Concurrent (grp s) = c" using reachable_options [OF assms(1)] by simp
  have ok: "list_all (gate_ok (grp s)) (threads s)" and gi: "gate_inv (grp s) (threads s)"
    using inv by (simp_all add: invariant_def)
  have "int (length (filter alive (threads s))) \<le> total holds_token (threads s)"
    using alive_le_tokens [OF ok] c assms(2) by simp
  moreover have "total holds_token (threads s) \<le> int (nat c)"
    using gi c assms(2) by (auto simp: gate_inv_def split: option.splits)
  ultimately have a: "length (filter alive (threads s)) \<le> nat c" by linarith
  then have r: "length (filter running (threads s)) \<le> nat c"
    using running_le_alive [of "threads s"] by linarith
  have p: "list_all finished (threads s)"
    if "list_all (list_all call_plain) scripts" "\<forall>i. step i s = None"
    using reachable_progress [OF assms(1) _ that] assms(2) by simp
  have t: "\<forall>sched s'. run sched s = Some s' \<longrightarrow> length sched \<le> steps_left s"
    using run_length by fastforce
  from a r p t show ?thesis by blast
qed

theorem at_most_Concurrent_units_run_witness:
  "steps (init 2 False [[CallGo (unit Ok), CallGo (unit Ok), CallGo (unit Ok), CallWait]])
     three_bounded_full \<and>
   list_all (list_all call_plain) [[CallGo (unit Ok), CallGo (unit Ok), CallGo (unit Ok), CallWait]] \<and>
   length (filter running (threads three_bounded_full)) = 2 \<and>
   step 0 three_bounded_full = None \<and>
   steps (init 2 False [[CallGo (unit Ok), CallGo (unit Ok), CallGo (unit Ok), CallWait]])
     three_bounded_done \<and>
   (\<forall>i. step i three_bounded_done = None) \<and>
   list_all finished (threads three_bounded_done) \<and>
   length (filter running (threads three_bounded_done)) \<le> nat 2 \<and>
   length [1,1,1,1, 0,0, 2,2,2,2, 3,3,3,3, 0,0::nat] \<le> steps_left three_bounded_full"
proof -
  have r1: "steps (init 2 False [[CallGo (unit Ok), CallGo (unit Ok), CallGo (unit Ok), CallWait]])
     three_bounded_full"
    using run_steps [OF three_bounded_run_full] by (simp add: three_bounded_def)
  have r2: "steps (init 2 False [[CallGo (unit Ok), CallGo (unit Ok), CallGo (unit Ok), CallWait]])
     three_bounded_done"
    using steps_trans [OF run_steps [OF three_bounded_run_done] r1] .
  have pl: "list_all (list_all call_plain)
      [[CallGo (unit Ok), CallGo (unit Ok), CallGo (unit Ok), CallWait]]"
    by (simp add: unit_def)
  have b: "step 0 three_bounded_full = None" by code_simp
  have n: "length (filter running (threads three_bounded_full)) = 2" by code_simp
  have stuck: "\<forall>i. step i three_bounded_done = None"
    by (simp add: step_def three_bounded_done_def nth_Cons split: nat.splits)
  have pos: "0 < (2::int)" by simp
  note full = at_most_Concurrent_units_run [OF r1 pos]
  note fin = at_most_Concurrent_units_run [OF r2 pos]
  from full three_bounded_run_done
  have l: "length [1,1,1,1, 0,0, 2,2,2,2, 3,3,3,3, 0,0::nat] \<le> steps_left three_bounded_full"
    by blast
  from fin have d: "length (filter running (threads three_bounded_done)) \<le> nat 2"
    by blast
  from fin pl stuck have f: "list_all finished (threads three_bounded_done)" by blast
  from r1 r2 pl b n stuck f l d show ?thesis by blast
qed

text \<open>
  C10. In every execution from a fresh Group with \<^verbatim>\<open>Concurrent < 0\<close> the semaphore stays the
  \<^verbatim>\<open>nil\<close> channel, a caller at the send of \<^verbatim>\<open>Go\<close> can never take a step, and a caller that has
  passed the admission check of a call of \<^verbatim>\<open>Go\<close> is still inside that call in every later state:
  the call never returns. With \<^verbatim>\<open>Concurrent \<ge> 0\<close>, and tasks that neither hang nor call \<^verbatim>\<open>Go\<close> or
  \<^verbatim>\<open>Wait\<close> on the Group, no state is a deadlock, so no call stays blocked.
\<close>

theorem Go_blocks_forever_below_zero:
  assumes "steps (init c a scripts) s"
  shows "(c < 0 \<longrightarrow>
           semaphore (grp s) = None \<and>
           (\<forall>i task cs rs. i < length (threads s) \<and> threads s ! i = Caller (GoSend task) cs rs \<longrightarrow>
              step i s = None) \<and>
           (\<forall>i p cs rs s'. i < length (threads s) \<and> threads s ! i = Caller p cs rs \<and> admitted p \<and>
              steps s s' \<longrightarrow> (\<exists>p'. threads s' ! i = Caller p' cs rs \<and> admitted p'))) \<and>
         (0 \<le> c \<and> list_all (list_all call_plain) scripts \<longrightarrow>
            (\<forall>i. step i s = None) \<longrightarrow> list_all finished (threads s))"
proof -
  have inv: "invariant s" using assms by (rule invariant_reachable)
  have c: "Concurrent (grp s) = c" using reachable_options [OF assms] by simp
  have neg: "semaphore (grp s) = None" if "c < 0"
    using nil_semaphore [OF inv] c that by simp
  have blocked: "step i s = None"
    if "c < 0" "i < length (threads s)" "threads s ! i = Caller (GoSend task) cs rs"
    for i task cs rs
    using that neg by (simp add: step_def)
  have stays: "\<exists>p'. threads s' ! i = Caller p' cs rs \<and> admitted p'"
    if "c < 0" "i < length (threads s)" "threads s ! i = Caller p cs rs" "admitted p" "steps s s'"
    for i p cs rs s'
    using admitted_stays [OF that(5) inv _ that(2,3,4)] c that(1) by simp
  have pos: "list_all finished (threads s)"
    if "0 \<le> c" "list_all (list_all call_plain) scripts" "\<forall>i. step i s = None"
    using reachable_progress [OF assms that] .
  from neg blocked stays pos show ?thesis by blast
qed

theorem Go_blocks_forever_below_zero_witness:
  "steps (init (- 1) False [[CallGo (unit Ok), CallWait]]) negative_bound_admitted \<and>
   threads negative_bound_admitted ! 0 = Caller (GoAddTotal (unit Ok)) [CallWait] [] \<and>
   steps negative_bound_admitted negative_bound_stuck \<and>
   threads negative_bound_stuck ! 0 = Caller (GoSend (unit Ok)) [CallWait] [] \<and>
   semaphore (grp negative_bound_stuck) = None \<and>
   step 0 negative_bound_stuck = None \<and>
   \<not> list_all finished (threads negative_bound_stuck) \<and>
   list_all finished (threads three_bounded_done)"
proof -
  have r1: "steps (init (- 1) False [[CallGo (unit Ok), CallWait]]) negative_bound_admitted"
    using run_steps [OF negative_bound_run_admitted] by (simp add: negative_bound_def)
  have r2: "steps negative_bound_admitted negative_bound_stuck"
    using run_steps [OF negative_bound_run_stuck] .
  have r3: "steps (init (- 1) False [[CallGo (unit Ok), CallWait]]) negative_bound_stuck"
    using steps_trans [OF r2 r1] .
  have r4: "steps (init 2 False [[CallGo (unit Ok), CallGo (unit Ok), CallGo (unit Ok), CallWait]])
      three_bounded_done"
    using steps_trans [OF run_steps [OF three_bounded_run_done] run_steps [OF three_bounded_run_full]]
    by (simp add: three_bounded_def)
  have pl: "list_all (list_all call_plain)
      [[CallGo (unit Ok), CallGo (unit Ok), CallGo (unit Ok), CallWait]]"
    by (simp add: unit_def)
  have t0: "threads negative_bound_admitted ! 0 = Caller (GoAddTotal (unit Ok)) [CallWait] []"
    by (simp add: negative_bound_admitted_def)
  have t1: "threads negative_bound_stuck ! 0 = Caller (GoSend (unit Ok)) [CallWait] []"
    by (simp add: negative_bound_stuck_def)
  have l: "0 < length (threads negative_bound_stuck)"
    by (simp add: negative_bound_stuck_def)
  have nf: "\<not> list_all finished (threads negative_bound_stuck)"
    by (simp add: negative_bound_stuck_def)
  have stuck: "\<forall>i. step i three_bounded_done = None"
    by (simp add: step_def three_bounded_done_def nth_Cons split: nat.splits)
  from Go_blocks_forever_below_zero [OF r3] l t1
  have a: "semaphore (grp negative_bound_stuck) = None" "step 0 negative_bound_stuck = None"
    by auto
  from Go_blocks_forever_below_zero [OF r4] pl stuck
  have b: "list_all finished (threads three_bounded_done)" by simp
  from r1 r2 t0 t1 a nf b show ?thesis by blast
qed

text \<open>
  C3. A unit whose task panics with payload \<open>p\<close>, in any state that an execution from a fresh
  Group reaches, runs to the end of its goroutine when it is scheduled: exactly one failure is
  appended, with the message \<^verbatim>\<open>task panic: \<close> followed by \<open>p\<close>, \<^verbatim>\<open>successCount\<close> is unchanged, the
  WaitGroup counter is lowered by one, the other goroutines are untouched and no goroutine has
  crashed. For \<^verbatim>\<open>Concurrent \<ge> 0\<close> and tasks that neither hang nor call \<^verbatim>\<open>Go\<close> or \<^verbatim>\<open>Wait\<close> on the
  Group, the state reached is no deadlock, so \<^verbatim>\<open>Wait\<close> still returns.
\<close>

theorem panic_becomes_one_failure:
  assumes "steps (init c a scripts) s" and "i < length (threads s)"
    and "threads s ! i = Worker (RunTask Idle [] rs (Panic p) b)"
  shows "\<exists>s'. run (unit_schedule i b) s = Some s' \<and>
           threads s' = (threads s)[i := Worker Exited] \<and>
           elems (errors (grp s')) = elems (errors (grp s)) @ [''task panic: '' @ p] \<and>
           successCount (grp s') = successCount (grp s) \<and>
           wg (grp s') = wg (grp s) - 1 \<and>
           list_all (\<lambda>t. t \<noteq> Worker Crashed) (threads s') \<and>
           (0 \<le> c \<and> list_all (list_all call_plain) scripts \<longrightarrow>
              (\<forall>j. step j s' = None) \<longrightarrow> list_all finished (threads s'))"
proof -
  have inv: "invariant s" using assms(1) by (rule invariant_reachable)
  from unit_runs_to_its_end [OF inv assms(2,3)] obtain s' where
    r: "run (unit_schedule i b) s = Some s'" and
    t: "threads s' = (threads s)[i := Worker Exited]" and
    g: "grp s' = (report (Panic p) (grp s))\<lparr>wg := wg (grp s) - 1, semaphore := semaphore (grp s')\<rparr>"
    by blast
  have reach: "steps (init c a scripts) s'"
    using steps_trans [OF run_steps [OF r] assms(1)] .
  then have inv': "invariant s'" by (rule invariant_reachable)
  have e: "elems (errors (grp s')) = elems (errors (grp s)) @ [''task panic: '' @ p]"
    by (subst g) (simp add: addError_def elems_def)
  have n: "successCount (grp s') = successCount (grp s)"
    by (subst g) (simp add: addError_def)
  have w: "wg (grp s') = wg (grp s) - 1" by (subst g) simp
  have p: "list_all finished (threads s')"
    if "0 \<le> c" "list_all (list_all call_plain) scripts" "\<forall>j. step j s' = None"
    using reachable_progress [OF reach that] .
  from r t e n w no_crash [OF inv'] p show ?thesis by blast
qed

theorem panic_becomes_one_failure_witness:
  "steps (init 2 False [[CallGo (unit (Panic ''P1'')), CallWait]]) panic_bounded_started \<and>
   threads panic_bounded_started ! 1 = Worker (RunTask Idle [] [] (Panic ''P1'') True) \<and>
   run (unit_schedule 1 True) panic_bounded_started = Some panic_bounded_ended \<and>
   elems (errors (grp panic_bounded_started)) = [] \<and>
   elems (errors (grp panic_bounded_ended)) = [''task panic: P1''] \<and>
   successCount (grp panic_bounded_ended) = 0 \<and>
   threads panic_bounded_ended = [Caller Idle [CallWait] [], Worker Exited]"
proof -
  have l: "1 < length (threads panic_bounded_started)"
    and t: "threads panic_bounded_started ! 1 = Worker (RunTask Idle [] [] (Panic ''P1'') True)"
    and e0: "elems (errors (grp panic_bounded_started)) = []"
    and n0: "successCount (grp panic_bounded_started) = 0"
    by (simp_all add: panic_bounded_started_def elems_def)
  from panic_becomes_one_failure [OF panic_bounded_steps l t] panic_bounded_run_ended
  have "elems (errors (grp panic_bounded_ended)) =
          elems (errors (grp panic_bounded_started)) @ [''task panic: '' @ ''P1''] \<and>
        successCount (grp panic_bounded_ended) = successCount (grp panic_bounded_started)"
    by auto
  with e0 n0 have "elems (errors (grp panic_bounded_ended)) = [''task panic: P1'']"
    "successCount (grp panic_bounded_ended) = 0" by simp_all
  moreover have "threads panic_bounded_ended = [Caller Idle [CallWait] [], Worker Exited]"
    by (simp add: panic_bounded_ended_def)
  ultimately show ?thesis
    using panic_bounded_steps t panic_bounded_run_ended e0 by blast
qed

text \<open>
  C4. The goroutine of an admitted unit, however its task ends (\<^verbatim>\<open>nil\<close>, an error, a panic, or
  \<^verbatim>\<open>runtime.Goexit\<close>), runs from the end of the task to its own end when it is scheduled, lowers
  the WaitGroup counter by exactly one and, in the bounded branch (taken exactly when
  \<^verbatim>\<open>Concurrent\<close> is not 0), takes exactly one element out of the semaphore; in the unbounded
  branch it leaves the semaphore alone. In all reachable states the counter is the number of
  units that have not called \<^verbatim>\<open>wg.Done()\<close> yet and the channel buffers one element per holder:
  nothing is skipped and nothing is done twice.
\<close>

theorem wrapper_releases_on_every_path:
  assumes "steps (init c a scripts) s" and "i < length (threads s)"
    and "threads s ! i = Worker (RunTask Idle [] rs oc b)"
  shows "(b \<longleftrightarrow> c \<noteq> 0) \<and>
         wg (grp s) = total pending (threads s) \<and>
         (\<forall>ch. semaphore (grp s) = Some ch \<longrightarrow> int (buffered ch) = total holds_token (threads s)) \<and>
         (\<exists>s'. run (unit_schedule i b) s = Some s' \<and>
            threads s' = (threads s)[i := Worker Exited] \<and>
            wg (grp s') = wg (grp s) - 1 \<and>
            (if b then \<exists>k n. semaphore (grp s) = Some (Chan k (Suc n)) \<and>
                        semaphore (grp s') = Some (Chan k n)
             else semaphore (grp s') = semaphore (grp s)))"
proof -
  have inv: "invariant s" using assms(1) by (rule invariant_reachable)
  have "gate_ok (grp s) (threads s ! i)"
    using inv assms(2) by (simp add: invariant_def list_all_length)
  then have b: "b \<longleftrightarrow> c \<noteq> 0"
    using assms(3) reachable_options [OF assms(1)] by simp
  have w: "wg (grp s) = total pending (threads s)"
    using inv by (simp add: invariant_def)
  have k: "\<forall>ch. semaphore (grp s) = Some ch \<longrightarrow> int (buffered ch) = total holds_token (threads s)"
    using inv by (auto simp: invariant_def gate_inv_def)
  from unit_runs_to_its_end [OF inv assms(2,3)] obtain s' where
    r: "run (unit_schedule i b) s = Some s'" and
    t: "threads s' = (threads s)[i := Worker Exited]" and
    g: "grp s' = (report oc (grp s))\<lparr>wg := wg (grp s) - 1, semaphore := semaphore (grp s')\<rparr>" and
    m: "if b then \<exists>k n. semaphore (grp s) = Some (Chan k (Suc n)) \<and>
                        semaphore (grp s') = Some (Chan k n)
        else semaphore (grp s') = semaphore (grp s)"
    by blast
  have d: "wg (grp s') = wg (grp s) - 1" by (subst g) simp
  from b w k r t d m show ?thesis by blast
qed

theorem wrapper_releases_on_every_path_witness:
  "steps (init 2 False [[CallGo (unit (Panic ''P1'')), CallWait]]) panic_bounded_started \<and>
   threads panic_bounded_started ! 1 = Worker (RunTask Idle [] [] (Panic ''P1'') True) \<and>
   run (unit_schedule 1 True) panic_bounded_started = Some panic_bounded_ended \<and>
   wg (grp panic_bounded_started) = 1 \<and> wg (grp panic_bounded_ended) = 0 \<and>
   semaphore (grp panic_bounded_started) = Some (Chan 2 1) \<and>
   semaphore (grp panic_bounded_ended) = Some (Chan 2 0)"
proof -
  have l: "1 < length (threads panic_bounded_started)"
    and t: "threads panic_bounded_started ! 1 = Worker (RunTask Idle [] [] (Panic ''P1'') True)"
    and w0: "wg (grp panic_bounded_started) = 1"
    and k0: "semaphore (grp panic_bounded_started) = Some (Chan 2 1)"
    by (simp_all add: panic_bounded_started_def)
  from wrapper_releases_on_every_path [OF panic_bounded_steps l t] panic_bounded_run_ended
  have "wg (grp panic_bounded_ended) = wg (grp panic_bounded_started) - 1 \<and>
        (\<exists>k n. semaphore (grp panic_bounded_started) = Some (Chan k (Suc n)) \<and>
               semaphore (grp panic_bounded_ended) = Some (Chan k n))"
    by auto
  with w0 k0 have "wg (grp panic_bounded_ended) = 0"
    "semaphore (grp panic_bounded_ended) = Some (Chan 2 0)" by auto
  with panic_bounded_steps t panic_bounded_run_ended w0 k0 show ?thesis by blast
qed

text \<open>
  C5. With \<^verbatim>\<open>AllowSomeFail = false\<close>, a call of \<^verbatim>\<open>Go\<close> that begins in a reachable state where a
  failure is recorded returns after \<^verbatim>\<open>once.Do\<close> and the admission check: the Group is unchanged
  (\<^verbatim>\<open>totalTasks\<close>, the WaitGroup counter, \<^verbatim>\<open>successCount\<close> and the failure list included) and no
  goroutine is started, so the unit is never invoked. The same holds when other goroutines take
  steps between \<^verbatim>\<open>once.Do\<close> and the check.
\<close>

theorem Go_denied_after_failure:
  assumes "steps (init c False scripts) s" and "i < length (threads s)"
    and "threads s ! i = Caller Idle (CallGo task # cs) rs" and "getHasFailed (grp s)"
  shows "run [i, i] s = Some \<lparr>grp = grp s, threads = (threads s)[i := Caller Idle cs rs]\<rparr> \<and>
         (\<forall>s1 s2. step i s = Some s1 \<and> steps s1 s2 \<and> threads s2 ! i = Caller (GoCheck task) cs rs \<longrightarrow>
            step i s2 = Some \<lparr>grp = grp s2, threads = (threads s2)[i := Caller Idle cs rs]\<rparr>)"
proof -
  have inv: "invariant s" using assms(1) by (rule invariant_reachable)
  have a: "\<not> AllowSomeFail (grp s)" using reachable_options [OF assms(1)] by simp
  have o: "once (grp s)" using inv assms(4) by (auto simp: invariant_def getHasFailed_def elems_def)
  have 1: "step i s = Some \<lparr>grp = grp s, threads = (threads s)[i := Caller (GoCheck task) cs rs]\<rparr>"
    using assms(2,3) o by (simp add: step_def once_Do_def)
  have alone: "run [i, i] s = Some \<lparr>grp = grp s, threads = (threads s)[i := Caller Idle cs rs]\<rparr>"
    using 1 assms(2,4) a by (simp add: step_def)
  have later: "step i s2 = Some \<lparr>grp = grp s2, threads = (threads s2)[i := Caller Idle cs rs]\<rparr>"
    if s1: "step i s = Some s1" and s2: "steps s1 s2"
      and t: "threads s2 ! i = Caller (GoCheck task) cs rs" for s1 s2
  proof -
    have r: "steps s s2" using steps_trans [OF s2 steps_single [OF s1]] .
    have r0: "steps (init c False scripts) s2" using steps_trans [OF r assms(1)] .
    have a2: "\<not> AllowSomeFail (grp s2)" using reachable_options [OF r0] by simp
    from steps_grows [OF r inv] assms(4) have f2: "getHasFailed (grp s2)"
      by (auto simp: getHasFailed_def)
    have i2: "i < length (threads s2)" using steps_length [OF r] assms(2) by simp
    from i2 t a2 f2 show ?thesis by (simp add: step_def)
  qed
  from alone later show ?thesis by blast
qed

theorem Go_denied_after_failure_witness:
  "steps (init 1 False [[CallGo (unit Ok), CallGo (unit (Err ''failed'')), CallGo (unit Ok),
                          CallWait]])
     fail_fast_failed \<and>
   threads fail_fast_failed ! 0 = Caller Idle [CallGo (unit Ok), CallWait] [] \<and>
   getHasFailed (grp fail_fast_failed) \<and>
   run [0, 0] fail_fast_failed = Some fail_fast_denied \<and>
   grp fail_fast_denied = grp fail_fast_failed \<and>
   threads fail_fast_denied = [Caller Idle [CallWait] [], Worker Exited, Worker Exited]"
proof -
  have r: "steps (init 1 False [[CallGo (unit Ok), CallGo (unit (Err ''failed'')), CallGo (unit Ok),
                          CallWait]])
     fail_fast_failed"
    using run_steps [OF fail_fast_run_failed] by (simp add: fail_fast_def)
  have l: "0 < length (threads fail_fast_failed)"
    and t: "threads fail_fast_failed ! 0 = Caller Idle [CallGo (unit Ok), CallWait] []"
    and f: "getHasFailed (grp fail_fast_failed)"
    by (simp_all add: fail_fast_failed_def getHasFailed_def elems_def)
  from Go_denied_after_failure [OF r l t f]
  have "run [0, 0] fail_fast_failed =
      Some \<lparr>grp = grp fail_fast_failed, threads = (threads fail_fast_failed)[0 := Caller Idle [CallWait] []]\<rparr>"
    by blast
  then have d: "run [0, 0] fail_fast_failed = Some fail_fast_denied"
    by (simp add: fail_fast_failed_def fail_fast_denied_def)
  have g: "grp fail_fast_denied = grp fail_fast_failed"
    "threads fail_fast_denied = [Caller Idle [CallWait] [], Worker Exited, Worker Exited]"
    by (simp_all add: fail_fast_failed_def fail_fast_denied_def)
  from r t f d g show ?thesis by blast
qed

text \<open>
  C7. In every state that an execution from a fresh Group with \<^verbatim>\<open>Concurrent = c\<close> reaches: as long
  as the \<^verbatim>\<open>Once\<close> has not fired, the failure list and the semaphore are \<^verbatim>\<open>nil\<close>, and the
  \<^verbatim>\<open>once.Do\<close> of the next call of \<^verbatim>\<open>Go\<close> allocates the empty list and makes a channel of capacity
  \<open>c\<close> if and only if \<open>c > 0\<close>; after it has fired, \<^verbatim>\<open>once.Do\<close> changes nothing, the list is
  allocated, a channel exists if and only if \<open>c > 0\<close>, and its capacity is \<open>c\<close> in all later states.
\<close>

theorem setup_runs_once:
  assumes "steps (init c a scripts) s"
  shows "(if once (grp s)
          then once_Do (grp s) = grp s \<and> errors (grp s) \<noteq> None \<and>
               map_option cap (semaphore (grp s)) = (if 0 < c then Some (nat c) else None)
          else errors (grp s) = None \<and> semaphore (grp s) = None \<and>
               once (once_Do (grp s)) \<and> errors (once_Do (grp s)) = Some [] \<and>
               semaphore (once_Do (grp s)) = (if 0 < c then Some (Chan (nat c) 0) else None)) \<and>
         (\<forall>s'. steps s s' \<and> once (grp s) \<longrightarrow>
            once (grp s') \<and> map_option cap (semaphore (grp s')) = map_option cap (semaphore (grp s)))"
proof -
  have shape: "map_option cap (semaphore (grp s')) = (if 0 < c then Some (nat c) else None) \<and>
      errors (grp s') \<noteq> None"
    if r: "steps (init c a scripts) s'" and o: "once (grp s')" for s'
  proof -
    have inv: "invariant s'" using r by (rule invariant_reachable)
    have c: "Concurrent (grp s') = c" using reachable_options [OF r] by simp
    have "errors (grp s') \<noteq> None"
      using errors_allocated [OF r] o by (simp add: init_def new_Group_def)
    moreover have "map_option cap (semaphore (grp s')) = (if 0 < c then Some (nat c) else None)"
      using inv c o by (auto simp: invariant_def gate_inv_def split: option.splits)
    ultimately show ?thesis by simp
  qed
  have fresh: "errors (grp s) = None \<and> semaphore (grp s) = None" if "\<not> once (grp s)"
    using invariant_reachable [OF assms] that
    by (auto simp: invariant_def gate_inv_def split: option.splits)
  have c: "Concurrent (grp s) = c" using reachable_options [OF assms] by simp
  have first: "?thesis" if o: "\<not> once (grp s)"
    using fresh [OF o] o c by (simp add: once_Do_def)
  have later: "?thesis" if o: "once (grp s)"
  proof -
    have "once (grp s') \<and> map_option cap (semaphore (grp s')) = map_option cap (semaphore (grp s))"
      if r: "steps s s'" for s'
    proof -
      have o': "once (grp s')" using steps_frame [OF r] o by simp
      from shape [OF steps_trans [OF r assms] o'] shape [OF assms o] o' show ?thesis by simp
    qed
    with shape [OF assms o] o show ?thesis by (simp add: once_Do_def)
  qed
  from first later show ?thesis by blast
qed

theorem setup_runs_once_witness:
  "steps (init 2 False [[CallGo (unit Ok), CallGo (unit Ok), CallGo (unit Ok), CallWait]])
     three_bounded \<and>
   \<not> once (grp three_bounded) \<and>
   errors (grp three_bounded) = None \<and> semaphore (grp three_bounded) = None \<and>
   errors (once_Do (grp three_bounded)) = Some [] \<and>
   semaphore (once_Do (grp three_bounded)) = Some (Chan 2 0) \<and>
   steps (init 2 False [[CallGo (unit Ok), CallGo (unit Ok), CallGo (unit Ok), CallWait]])
     three_bounded_full \<and>
   once (grp three_bounded_full) \<and>
   once_Do (grp three_bounded_full) = grp three_bounded_full \<and>
   map_option cap (semaphore (grp three_bounded_full)) = Some 2 \<and>
   steps three_bounded_full three_bounded_done \<and>
   map_option cap (semaphore (grp three_bounded_done)) = Some 2"
proof -
  have r0: "steps (init 2 False [[CallGo (unit Ok), CallGo (unit Ok), CallGo (unit Ok), CallWait]])
      three_bounded"
    by (simp add: three_bounded_def steps.start)
  have r1: "steps (init 2 False [[CallGo (unit Ok), CallGo (unit Ok), CallGo (unit Ok), CallWait]])
      three_bounded_full"
    using run_steps [OF three_bounded_run_full] by (simp add: three_bounded_def)
  have r2: "steps three_bounded_full three_bounded_done"
    using run_steps [OF three_bounded_run_done] .
  have o0: "\<not> once (grp three_bounded)"
    by (simp add: three_bounded_def init_def new_Group_def)
  have o1: "once (grp three_bounded_full)"
    by (simp add: three_bounded_full_def)
  from setup_runs_once [OF r0] o0
  have a: "errors (grp three_bounded) = None" "semaphore (grp three_bounded) = None"
    "errors (once_Do (grp three_bounded)) = Some []"
    "semaphore (once_Do (grp three_bounded)) = Some (Chan 2 0)"
    by simp_all
  from setup_runs_once [OF r1] o1 r2
  have b: "once_Do (grp three_bounded_full) = grp three_bounded_full"
    "map_option cap (semaphore (grp three_bounded_full)) = Some 2"
    "map_option cap (semaphore (grp three_bounded_done)) = Some 2"
    by auto
  from r0 r1 r2 o0 o1 a b show ?thesis by blast
qed



end
